theory Spec2Isabelle
  imports Complex_Main "HOL-Library.AList" "HOL-Library.Disjoint_Sets"
begin

section \<open>Python values used by \<open>model/agents.py\<close>\<close>

text \<open>
  The exceptions the modelled code can raise. A function that can raise returns
  \<open>py_error + 'a\<close>, with \<open>Inl\<close> for the exception.
\<close>

datatype py_error = IndexError | ValueError | KeyError

text \<open>
  A cluster assignment is a Python \<open>dict\<close> from context to cluster index. It is kept
  as an association list in insertion order; \<open>d[k] = v\<close> is \<open>AList.update k v d\<close>
  (the entry is replaced in place when the key is present, appended otherwise),
  \<open>d.values()\<close> is \<open>map snd d\<close>, \<open>len(d)\<close> is \<open>length d\<close> and \<open>d[k]\<close> is
  \<open>map_of d k\<close>. Cluster indices are the non-negative integers of the data model.
\<close>

type_synonym 'c assignment = "('c \<times> nat) list"

text \<open>\<open>xs[i]\<close> for a non-negative index: \<open>IndexError\<close> out of range.\<close>

definition py_getitem :: "'a list \<Rightarrow> nat \<Rightarrow> py_error + 'a" where
  "py_getitem xs i = (if i < length xs then Inr (xs ! i) else Inl IndexError)"

text \<open>\<open>max(xs)\<close>: \<open>ValueError\<close> on an empty sequence.\<close>

fun py_max :: "nat list \<Rightarrow> py_error + nat" where
  "py_max [] = Inl ValueError"
| "py_max (x # xs) = Inr (fold max xs x)"

section \<open>The assignment enumerator\<close>

text \<open>
  The inner loop of \<open>augment_assignments\<close>:
  \<^verbatim>\<open>
  new_list = list()
  for k in range(0, max(assignment.values()) + 2):
      _assignment_copy = assignment.copy()
      _assignment_copy[new_context] = k
      new_list.append(_assignment_copy)
  \<close>
\<close>

definition new_list :: "'c assignment \<Rightarrow> 'c \<Rightarrow> py_error + 'c assignment list" where
  "new_list assignment new_context =
     (case py_max (map snd assignment) of
        Inl e \<Rightarrow> Inl e
      | Inr m \<Rightarrow> Inr (map (\<lambda>k. AList.update new_context k assignment) [0..<m + 2]))"

text \<open>
  The outer loop \<open>for assignment in cluster_assignments: ... _cluster_assignments += new_list\<close>,
  with the list built so far as accumulator.
\<close>

fun augment_loop ::
  "'c assignment list \<Rightarrow> 'c \<Rightarrow> 'c assignment list \<Rightarrow> py_error + 'c assignment list" where
  "augment_loop [] new_context acc = Inr acc"
| "augment_loop (assignment # rest) new_context acc =
     (case new_list assignment new_context of
        Inl e \<Rightarrow> Inl e
      | Inr nl \<Rightarrow> augment_loop rest new_context (acc @ nl))"

text \<open>
  \<^verbatim>\<open>
  def augment_assignments(cluster_assignments, new_context):
      if (len(cluster_assignments) == 0) | (len(cluster_assignments[0]) == 0):
          _cluster_assignments = list()
          _cluster_assignments.append({new_context: 0})
      else:
          ...
      return _cluster_assignments
  \<close>
  The operator \<open>|\<close> evaluates both operands, so \<open>cluster_assignments[0]\<close> is read
  before the test is decided.
\<close>

definition augment_assignments ::
  "'c assignment list \<Rightarrow> 'c \<Rightarrow> py_error + 'c assignment list" where
  "augment_assignments cluster_assignments new_context =
     (case py_getitem cluster_assignments 0 of
        Inl e \<Rightarrow> Inl e
      | Inr first \<Rightarrow>
          if length cluster_assignments = 0 \<or> length first = 0
          then Inr [[(new_context, 0)]]
          else augment_loop cluster_assignments new_context [])"

text \<open>
  \<^verbatim>\<open>
  def enumerate_assignments(max_context_number):
      cluster_assignments = [{}]
      for contextNumber in range(0, max_context_number):
          cluster_assignments = augment_assignments(cluster_assignments, contextNumber)
      return cluster_assignments
  \<close>
\<close>

fun enumerate_loop ::
  "nat list \<Rightarrow> nat assignment list \<Rightarrow> py_error + nat assignment list" where
  "enumerate_loop [] cluster_assignments = Inr cluster_assignments"
| "enumerate_loop (contextNumber # rest) cluster_assignments =
     (case augment_assignments cluster_assignments contextNumber of
        Inl e \<Rightarrow> Inl e
      | Inr cluster_assignments' \<Rightarrow> enumerate_loop rest cluster_assignments')"

definition enumerate_assignments :: "nat \<Rightarrow> py_error + nat assignment list" where
  "enumerate_assignments max_context_number =
     enumerate_loop [0..<max_context_number] [[]]"

section \<open>Hypothesis objects\<close>

text \<open>
  Modelled from the spec: the classes \<open>RewardHypothesis\<close> and \<open>MappingHypothesis\<close> of
  \<open>cython_library\<close>, which the agents import and whose source is not among the files.
  The spec describes a hypothesis as a context-to-cluster assignment plus per-cluster
  statistics, with the derived quantities log-prior, log-likelihood and
  log-posterior = prior + likelihood; it is created with an externally supplied
  assignment, copied, and extended with one new context-to-cluster mapping; a count
  update changes the statistics only. The statistics and the two scores computed
  from them are black boxes: they are the parameters \<open>hypothesis_ops\<close>. Log-beliefs
  are modelled as (finite) real numbers.
\<close>

record 's hypothesis =
  assignments :: "nat assignment"
  statistics :: 's

record ('s, 'obs) hypothesis_ops =
  get_log_prior :: "'s hypothesis \<Rightarrow> real"
  get_log_likelihood :: "'s hypothesis \<Rightarrow> real"
  count_update :: "'obs \<Rightarrow> 's hypothesis \<Rightarrow> 's"
  extend_statistics :: "nat \<Rightarrow> nat \<Rightarrow> 's hypothesis \<Rightarrow> 's"
  new_statistics :: "nat assignment \<Rightarrow> 's"

definition get_log_posterior :: "('s, 'obs) hypothesis_ops \<Rightarrow> 's hypothesis \<Rightarrow> real" where
  "get_log_posterior ops h = get_log_prior ops h + get_log_likelihood ops h"

definition get_assignments :: "'s hypothesis \<Rightarrow> nat assignment" where
  "get_assignments h = assignments h"

definition deep_copy :: "'s hypothesis \<Rightarrow> 's hypothesis" where
  "deep_copy h = h"

definition add_new_context_assignment ::
  "('s, 'obs) hypothesis_ops \<Rightarrow> nat \<Rightarrow> nat \<Rightarrow> 's hypothesis \<Rightarrow> 's hypothesis" where
  "add_new_context_assignment ops context k h =
     h\<lparr>assignments := AList.update context k (assignments h),
       statistics := extend_statistics ops context k h\<rparr>"

definition hypothesis_update ::
  "('s, 'obs) hypothesis_ops \<Rightarrow> 'obs \<Rightarrow> 's hypothesis \<Rightarrow> 's hypothesis" where
  "hypothesis_update ops obs h = h\<lparr>statistics := count_update ops obs h\<rparr>"

definition new_hypothesis :: "('s, 'obs) hypothesis_ops \<Rightarrow> nat assignment \<Rightarrow> 's hypothesis" where
  "new_hypothesis ops assignment =
     \<lparr>assignments = assignment, statistics = new_statistics ops assignment\<rparr>"

section \<open>Numeric arrays\<close>

text \<open>\<open>np.max(xs)\<close>: \<open>ValueError\<close> on an empty array.\<close>

fun np_max :: "real list \<Rightarrow> py_error + real" where
  "np_max [] = Inl ValueError"
| "np_max (x # xs) = Inr (fold max xs x)"

text \<open>
  \<open>np.log(threshold)\<close> is \<open>-inf\<close> at 0 and \<open>nan\<close> below 0 (numpy warns and goes on), and
  a comparison \<open>d < -inf\<close> or \<open>d < nan\<close> is false.
\<close>

datatype np_float = Finite real | NegInf | NaN

definition np_log :: "real \<Rightarrow> np_float" where
  "np_log x = (if 0 < x then Finite (ln x) else if x = 0 then NegInf else NaN)"

fun np_less :: "real \<Rightarrow> np_float \<Rightarrow> bool" where
  "np_less d (Finite y) = (d < y)"
| "np_less d NegInf = False"
| "np_less d NaN = False"

text \<open>\<open>arr[ii] = v\<close>: \<open>IndexError\<close> out of range.\<close>

definition np_setitem :: "real list \<Rightarrow> nat \<Rightarrow> real \<Rightarrow> py_error + real list" where
  "np_setitem arr ii v = (if ii < length arr then Inr (arr[ii := v]) else Inl IndexError)"

text \<open>
  The loops \<open>for ii, h in enumerate(hs): arr[ii] = f(h)\<close> and
  \<open>for ii, h in enumerate(hs): arr[ii] += f(h)\<close>.
\<close>

fun store_loop :: "('h \<Rightarrow> real) \<Rightarrow> (nat \<times> 'h) list \<Rightarrow> real list \<Rightarrow> py_error + real list" where
  "store_loop f [] arr = Inr arr"
| "store_loop f ((ii, h) # rest) arr =
     (case np_setitem arr ii (f h) of
        Inl e \<Rightarrow> Inl e
      | Inr arr' \<Rightarrow> store_loop f rest arr')"

fun add_loop :: "('h \<Rightarrow> real) \<Rightarrow> (nat \<times> 'h) list \<Rightarrow> real list \<Rightarrow> py_error + real list" where
  "add_loop f [] arr = Inr arr"
| "add_loop f ((ii, h) # rest) arr =
     (case py_getitem arr ii of
        Inl e \<Rightarrow> Inl e
      | Inr old \<Rightarrow>
          (case np_setitem arr ii (old + f h) of
             Inl e \<Rightarrow> Inl e
           | Inr arr' \<Rightarrow> add_loop f rest arr'))"

section \<open>The agents\<close>

text \<open>
  An experience tuple is \<open>((location, context), a, aa, r, (location', context'))\<close>:
  the primitive action \<open>a\<close> and the abstract action \<open>aa\<close> are integers (\<open>aa\<close> is \<open>-1\<close>
  for a move that is none of the four), the reward \<open>r\<close> a number.
  The update methods unpack it as \<open>_, a, aa, r, (loc_prime, c) = experience_tuple\<close>.
  \<open>self.task.state_location_key\<close> is a dict from locations to state numbers.
\<close>

type_synonym 'loc experience = "('loc \<times> nat) \<times> int \<times> int \<times> real \<times> ('loc \<times> nat)"

text \<open>
  The two hypothesis populations that every clustering agent holds
  (\<open>self.reward_hypotheses\<close>, \<open>self.mapping_hypotheses\<close>). The element types \<open>'r\<close> and
  \<open>'m\<close> are hypothesis types wherever a method looks into a hypothesis; pruning
  only moves the objects around.
\<close>

record ('r, 'm) populations =
  reward_hypotheses :: "'r list"
  mapping_hypotheses :: "'m list"

subsection \<open>\<open>JointClustering\<close>\<close>

record ('r, 'm) JointClustering = "('r, 'm) populations" +
  log_belief :: "real list"

text \<open>
  \<^verbatim>\<open>
  def update(self, experience_tuple):
      _, a, aa, r, (loc_prime, c) = experience_tuple
      self.updating_mapping(c, a, aa)
      sp = self.task.state_location_key[loc_prime]
      self.update_rewards(c, sp, r)
      self.log_belief = np.zeros(len(self.mapping_hypotheses))
      for ii, h_m in enumerate(self.mapping_hypotheses):
          self.log_belief[ii] = h_m.get_log_prior()
      for ii, h_r in enumerate(self.reward_hypotheses):
          self.log_belief[ii] = h_r.get_log_likelihood()
      for ii, h_m in enumerate(self.mapping_hypotheses):
          self.log_belief[ii] += h_m.get_log_likelihood()
  \<close>
  \<open>updating_mapping\<close> and \<open>update_rewards\<close> pass the observation to every hypothesis of
  their population.
\<close>

definition JointClustering_update ::
  "('s, nat \<times> nat \<times> real) hypothesis_ops \<Rightarrow> ('t, nat \<times> int \<times> int) hypothesis_ops \<Rightarrow>
   ('loc \<rightharpoonup> nat) \<Rightarrow> 'loc experience \<Rightarrow>
   ('s hypothesis, 't hypothesis) JointClustering \<Rightarrow>
   py_error + ('s hypothesis, 't hypothesis) JointClustering" where
  "JointClustering_update r_ops m_ops state_location_key experience_tuple self =
     (case experience_tuple of (_, a, aa, r, (loc_prime, c)) \<Rightarrow>
        let self1 = self\<lparr>mapping_hypotheses :=
                      map (hypothesis_update m_ops (c, a, aa)) (mapping_hypotheses self)\<rparr>
        in case state_location_key loc_prime of
             None \<Rightarrow> Inl KeyError
           | Some sp \<Rightarrow>
               let self2 = self1\<lparr>reward_hypotheses :=
                             map (hypothesis_update r_ops (c, sp, r)) (reward_hypotheses self1)\<rparr>;
                   zeros = replicate (length (mapping_hypotheses self2)) 0
               in case store_loop (get_log_prior m_ops)
                         (enumerate 0 (mapping_hypotheses self2)) zeros of
                    Inl e \<Rightarrow> Inl e
                  | Inr b1 \<Rightarrow>
                      (case store_loop (get_log_likelihood r_ops)
                         (enumerate 0 (reward_hypotheses self2)) b1 of
                         Inl e \<Rightarrow> Inl e
                       | Inr b2 \<Rightarrow>
                           (case add_loop (get_log_likelihood m_ops)
                              (enumerate 0 (mapping_hypotheses self2)) b2 of
                              Inl e \<Rightarrow> Inl e
                            | Inr b3 \<Rightarrow> Inr (self2\<lparr>log_belief := b3\<rparr>))))"

text \<open>
  \<^verbatim>\<open>
  def augment_assignments(self, context):
      new_reward_hypotheses = list(); new_mapping_hypotheses = list(); new_log_belief = list()
      for h_r, h_m in zip(self.reward_hypotheses, self.mapping_hypotheses):
          old_assignments = h_r.get_assignments()
          new_assignments = augment_assignments([old_assignments], context)
          for assignment in new_assignments:
              k = assignment[context]
              h_r0 = h_r.deep_copy(); h_r0.add_new_context_assignment(context, k)
              h_m0 = h_m.deep_copy(); h_m0.add_new_context_assignment(context, k)
              new_reward_hypotheses.append(h_r0)
              new_mapping_hypotheses.append(h_m0)
              new_log_belief.append(h_r0.get_log_posterior() + h_m0.get_log_likelihood())
      self.reward_hypotheses = new_reward_hypotheses
      self.mapping_hypotheses = new_mapping_hypotheses
      self.log_belief = new_log_belief
  \<close>
  The accumulator of both loops is the triple of new lists.
\<close>

fun JointClustering_children ::
  "('s, 'o) hypothesis_ops \<Rightarrow> ('t, 'p) hypothesis_ops \<Rightarrow> nat \<Rightarrow> 's hypothesis \<Rightarrow> 't hypothesis \<Rightarrow>
   nat assignment list \<Rightarrow> 's hypothesis list \<times> 't hypothesis list \<times> real list \<Rightarrow>
   py_error + 's hypothesis list \<times> 't hypothesis list \<times> real list" where
  "JointClustering_children r_ops m_ops context h_r h_m [] acc = Inr acc"
| "JointClustering_children r_ops m_ops context h_r h_m (assignment # rest) (nr, nm, nb) =
     (case map_of assignment context of
        None \<Rightarrow> Inl KeyError
      | Some k \<Rightarrow>
          let h_r0 = add_new_context_assignment r_ops context k (deep_copy h_r);
              h_m0 = add_new_context_assignment m_ops context k (deep_copy h_m)
          in JointClustering_children r_ops m_ops context h_r h_m rest
               (nr @ [h_r0], nm @ [h_m0],
                nb @ [get_log_posterior r_ops h_r0 + get_log_likelihood m_ops h_m0]))"

fun JointClustering_augment_loop ::
  "('s, 'o) hypothesis_ops \<Rightarrow> ('t, 'p) hypothesis_ops \<Rightarrow> nat \<Rightarrow>
   ('s hypothesis \<times> 't hypothesis) list \<Rightarrow> 's hypothesis list \<times> 't hypothesis list \<times> real list \<Rightarrow>
   py_error + 's hypothesis list \<times> 't hypothesis list \<times> real list" where
  "JointClustering_augment_loop r_ops m_ops context [] acc = Inr acc"
| "JointClustering_augment_loop r_ops m_ops context ((h_r, h_m) # rest) acc =
     (case augment_assignments [get_assignments h_r] context of
        Inl e \<Rightarrow> Inl e
      | Inr new_assignments \<Rightarrow>
          (case JointClustering_children r_ops m_ops context h_r h_m new_assignments acc of
             Inl e \<Rightarrow> Inl e
           | Inr acc' \<Rightarrow> JointClustering_augment_loop r_ops m_ops context rest acc'))"

definition JointClustering_augment_assignments ::
  "('s, 'o) hypothesis_ops \<Rightarrow> ('t, 'p) hypothesis_ops \<Rightarrow> nat \<Rightarrow>
   ('s hypothesis, 't hypothesis) JointClustering \<Rightarrow>
   py_error + ('s hypothesis, 't hypothesis) JointClustering" where
  "JointClustering_augment_assignments r_ops m_ops context self =
     (case JointClustering_augment_loop r_ops m_ops context
             (zip (reward_hypotheses self) (mapping_hypotheses self)) ([], [], []) of
        Inl e \<Rightarrow> Inl e
      | Inr (new_reward_hypotheses, new_mapping_hypotheses, new_log_belief) \<Rightarrow>
          Inr (self\<lparr>reward_hypotheses := new_reward_hypotheses,
                    mapping_hypotheses := new_mapping_hypotheses,
                    log_belief := new_log_belief\<rparr>))"

text \<open>
  \<^verbatim>\<open>
  def prune_hypothesis_space(self, threshold=50.):
      new_log_belief = []; new_reward_hypotheses = []; new_mapping_hypotheses = []
      max_belief = np.max(self.log_belief)
      log_threshold = np.log(threshold)
      for ii, log_b in enumerate(self.log_belief):
          if max_belief - log_b < log_threshold:
              new_log_belief.append(log_b)
              new_reward_hypotheses.append(self.reward_hypotheses[ii])
              new_mapping_hypotheses.append(self.mapping_hypotheses[ii])
      self.log_belief = new_log_belief
      self.reward_hypotheses = new_reward_hypotheses
      self.mapping_hypotheses = new_mapping_hypotheses
  \<close>
\<close>

fun JointClustering_prune_loop ::
  "real \<Rightarrow> np_float \<Rightarrow> 'r list \<Rightarrow> 'm list \<Rightarrow> (nat \<times> real) list \<Rightarrow>
   real list \<times> 'r list \<times> 'm list \<Rightarrow> py_error + real list \<times> 'r list \<times> 'm list" where
  "JointClustering_prune_loop max_belief log_threshold rs ms [] acc = Inr acc"
| "JointClustering_prune_loop max_belief log_threshold rs ms ((ii, log_b) # rest) (nb, nr, nm) =
     (if np_less (max_belief - log_b) log_threshold
      then (case py_getitem rs ii of
              Inl e \<Rightarrow> Inl e
            | Inr h_r \<Rightarrow>
                (case py_getitem ms ii of
                   Inl e \<Rightarrow> Inl e
                 | Inr h_m \<Rightarrow>
                     JointClustering_prune_loop max_belief log_threshold rs ms rest
                       (nb @ [log_b], nr @ [h_r], nm @ [h_m])))
      else JointClustering_prune_loop max_belief log_threshold rs ms rest (nb, nr, nm))"

definition JointClustering_prune_hypothesis_space ::
  "real \<Rightarrow> ('r, 'm) JointClustering \<Rightarrow> py_error + ('r, 'm) JointClustering" where
  "JointClustering_prune_hypothesis_space threshold self =
     (case np_max (log_belief self) of
        Inl e \<Rightarrow> Inl e
      | Inr max_belief \<Rightarrow>
          (case JointClustering_prune_loop max_belief (np_log threshold)
                  (reward_hypotheses self) (mapping_hypotheses self)
                  (enumerate 0 (log_belief self)) ([], [], []) of
             Inl e \<Rightarrow> Inl e
           | Inr (new_log_belief, new_reward_hypotheses, new_mapping_hypotheses) \<Rightarrow>
               Inr (self\<lparr>log_belief := new_log_belief,
                         reward_hypotheses := new_reward_hypotheses,
                         mapping_hypotheses := new_mapping_hypotheses\<rparr>)))"

subsection \<open>\<open>IndependentClusterAgent\<close>\<close>

record ('r, 'm) IndependentClusterAgent = "('r, 'm) populations" +
  log_belief_rew :: "real list"
  log_belief_map :: "real list"

text \<open>
  \<^verbatim>\<open>
  def prune_hypothesis_space(self, threshold=50.):
      new_log_belief_rew = []; new_reward_hypotheses = []
      max_belief = np.max(self.log_belief_rew)
      log_threshold = np.log(threshold)
      for ii, log_b in enumerate(self.log_belief_rew):
          if max_belief - log_b < log_threshold:
              new_log_belief_rew.append(log_b)
              new_reward_hypotheses.append(self.reward_hypotheses[ii])
      self.log_belief_rew = new_log_belief_rew
      self.reward_hypotheses = new_reward_hypotheses
      new_log_belief_map = []; new_mapping_hypotheses = []
      max_belief = np.max(self.log_belief_map)
      for ii, log_b in enumerate(self.log_belief_map):
          if max_belief - log_b < log_threshold:
              new_log_belief_map.append(log_b)
              new_mapping_hypotheses.append(self.mapping_hypotheses[ii])
      self.log_belief_map = new_log_belief_map
      self.mapping_hypotheses = new_mapping_hypotheses
  \<close>
  Both loops have the same body; \<open>IndependentClusterAgent_prune_loop\<close> is that loop.
\<close>

fun IndependentClusterAgent_prune_loop ::
  "real \<Rightarrow> np_float \<Rightarrow> 'h list \<Rightarrow> (nat \<times> real) list \<Rightarrow>
   real list \<times> 'h list \<Rightarrow> py_error + real list \<times> 'h list" where
  "IndependentClusterAgent_prune_loop max_belief log_threshold hs [] acc = Inr acc"
| "IndependentClusterAgent_prune_loop max_belief log_threshold hs ((ii, log_b) # rest) (nb, nh) =
     (if np_less (max_belief - log_b) log_threshold
      then (case py_getitem hs ii of
              Inl e \<Rightarrow> Inl e
            | Inr h \<Rightarrow>
                IndependentClusterAgent_prune_loop max_belief log_threshold hs rest
                  (nb @ [log_b], nh @ [h]))
      else IndependentClusterAgent_prune_loop max_belief log_threshold hs rest (nb, nh))"

definition IndependentClusterAgent_prune_hypothesis_space ::
  "real \<Rightarrow> ('r, 'm) IndependentClusterAgent \<Rightarrow> py_error + ('r, 'm) IndependentClusterAgent" where
  "IndependentClusterAgent_prune_hypothesis_space threshold self =
     (case np_max (log_belief_rew self) of
        Inl e \<Rightarrow> Inl e
      | Inr max_belief \<Rightarrow>
          let log_threshold = np_log threshold
          in case IndependentClusterAgent_prune_loop max_belief log_threshold
                    (reward_hypotheses self) (enumerate 0 (log_belief_rew self)) ([], []) of
               Inl e \<Rightarrow> Inl e
             | Inr (new_log_belief_rew, new_reward_hypotheses) \<Rightarrow>
                 let self1 = self\<lparr>log_belief_rew := new_log_belief_rew,
                                  reward_hypotheses := new_reward_hypotheses\<rparr>
                 in case np_max (log_belief_map self1) of
                      Inl e \<Rightarrow> Inl e
                    | Inr max_belief' \<Rightarrow>
                        (case IndependentClusterAgent_prune_loop max_belief' log_threshold
                                (mapping_hypotheses self1) (enumerate 0 (log_belief_map self1))
                                ([], []) of
                           Inl e \<Rightarrow> Inl e
                         | Inr (new_log_belief_map, new_mapping_hypotheses) \<Rightarrow>
                             Inr (self1\<lparr>log_belief_map := new_log_belief_map,
                                        mapping_hypotheses := new_mapping_hypotheses\<rparr>)))"

subsection \<open>\<open>FlatControlAgent\<close>\<close>

text \<open>
  \<open>self.task_sets\<close> is a list of dicts with the two keys \<open>'Reward Hypothesis'\<close> and
  \<open>'Mapping Hypothesis'\<close>: a list of pairs. \<open>__init__\<close> builds one reward and one
  mapping hypothesis (\<open>h_r\<close> and \<open>h_m\<close> here) and sets
  \<^verbatim>\<open>
      self.task_sets = [{'Reward Hypothesis': h_r, 'Mapping Hypothesis': h_m}]
      self.log_belief = np.ones(1)
  \<close>
\<close>

record ('s, 't) FlatControlAgent =
  task_sets :: "('s hypothesis \<times> 't hypothesis) list"
  log_belief_flat :: "real list"

definition FlatControlAgent_init ::
  "'s hypothesis \<Rightarrow> 't hypothesis \<Rightarrow> ('s, 't) FlatControlAgent" where
  "FlatControlAgent_init h_r h_m = \<lparr>task_sets = [(h_r, h_m)], log_belief_flat = [1]\<rparr>"

text \<open>
  \<^verbatim>\<open>
  def update(self, experience_tuple):
      _, a, aa, r, (loc_prime, c) = experience_tuple
      self.updating_mapping(c, a, aa)
      sp = self.task.state_location_key[loc_prime]
      self.update_rewards(c, sp, r)
      for ii, ts in enumerate(self.task_sets):
          h_m = ts['Mapping Hypothesis']
          h_r = ts['Reward Hypothesis']
          self.log_belief[ii] = h_m.get_log_prior() + h_m.get_log_likelihood() + h_r.get_log_likelihood()
  \<close>
\<close>

definition FlatControlAgent_update ::
  "('s, nat \<times> nat \<times> real) hypothesis_ops \<Rightarrow> ('t, nat \<times> int \<times> int) hypothesis_ops \<Rightarrow>
   ('loc \<rightharpoonup> nat) \<Rightarrow> 'loc experience \<Rightarrow> ('s, 't) FlatControlAgent \<Rightarrow>
   py_error + ('s, 't) FlatControlAgent" where
  "FlatControlAgent_update r_ops m_ops state_location_key experience_tuple self =
     (case experience_tuple of (_, a, aa, r, (loc_prime, c)) \<Rightarrow>
        let self1 = self\<lparr>task_sets :=
                      map (\<lambda>(h_r, h_m). (h_r, hypothesis_update m_ops (c, a, aa) h_m))
                        (task_sets self)\<rparr>
        in case state_location_key loc_prime of
             None \<Rightarrow> Inl KeyError
           | Some sp \<Rightarrow>
               let self2 = self1\<lparr>task_sets :=
                             map (\<lambda>(h_r, h_m). (hypothesis_update r_ops (c, sp, r) h_r, h_m))
                               (task_sets self1)\<rparr>
               in case store_loop
                         (\<lambda>(h_r, h_m). get_log_prior m_ops h_m + get_log_likelihood m_ops h_m
                                        + get_log_likelihood r_ops h_r)
                         (enumerate 0 (task_sets self2)) (log_belief_flat self2) of
                    Inl e \<Rightarrow> Inl e
                  | Inr b \<Rightarrow> Inr (self2\<lparr>log_belief_flat := b\<rparr>))"

text \<open>
  \<open>FlatControlAgent\<close> does not define \<open>prune_hypothesis_space\<close>; it inherits
  \<^verbatim>\<open>
  def prune_hypothesis_space(self, threshold=50.):
      pass
  \<close>
  from \<open>MultiStepAgent\<close>.
\<close>

definition MultiStepAgent_prune_hypothesis_space :: "real \<Rightarrow> 'agent \<Rightarrow> 'agent" where
  "MultiStepAgent_prune_hypothesis_space threshold self = self"

text \<open>
  \<^verbatim>\<open>
  def augment_assignments(self, context):
      ts = self.task_sets[0]
      h_m = ts['Mapping Hypothesis']
      h_r = ts['Reward Hypothesis']
      h_m.add_new_context_assignment(context, context)
      h_r.add_new_context_assignment(context, context)
      self.task_sets = [{'Reward Hypothesis': h_r, 'Mapping Hypothesis': h_m}]
      self.log_belief = [1]
  \<close>
\<close>

definition FlatControlAgent_augment_assignments ::
  "('s, 'o) hypothesis_ops \<Rightarrow> ('t, 'p) hypothesis_ops \<Rightarrow> nat \<Rightarrow> ('s, 't) FlatControlAgent \<Rightarrow>
   py_error + ('s, 't) FlatControlAgent" where
  "FlatControlAgent_augment_assignments r_ops m_ops context self =
     (case py_getitem (task_sets self) 0 of
        Inl e \<Rightarrow> Inl e
      | Inr ts \<Rightarrow>
          (case ts of (h_r, h_m) \<Rightarrow>
             let h_m' = add_new_context_assignment m_ops context context h_m;
                 h_r' = add_new_context_assignment r_ops context context h_r
             in Inr (self\<lparr>task_sets := [(h_r', h_m')], log_belief_flat := [1]\<rparr>)))"

subsection \<open>\<open>MapClusteringAgent\<close>\<close>

record ('r, 'm) MapClusteringAgent = "('r, 'm) populations" +
  belief_rew :: "real list"
  belief_map :: "real list"

text \<open>
  The part of \<open>__init__\<close> that builds the populations:
  \<^verbatim>\<open>
      map_set_assignments = enumerate_assignments(self.task.n_ctx)
      set_assignments = [{ii: ii for ii in range(task.n_ctx)}]
      self.reward_hypotheses = []
      self.mapping_hypotheses = []
      for assignment in set_assignments:
          self.reward_hypotheses.append(RewardHypothesis(..., assignment, alpha))
      for assignment in map_set_assignments:
          self.mapping_hypotheses.append(MappingHypothesis(..., assignment, alpha, mapping_prior))
      self.belief_rew = np.ones(len(self.reward_hypotheses)) / float(len(self.reward_hypotheses))
      self.belief_map = np.ones(len(self.mapping_hypotheses)) / float(len(self.mapping_hypotheses))
  \<close>
\<close>

definition MapClusteringAgent_init ::
  "('s, 'o) hypothesis_ops \<Rightarrow> ('t, 'p) hypothesis_ops \<Rightarrow> nat \<Rightarrow>
   py_error + ('s hypothesis, 't hypothesis) MapClusteringAgent" where
  "MapClusteringAgent_init r_ops m_ops n_ctx =
     (case enumerate_assignments n_ctx of
        Inl e \<Rightarrow> Inl e
      | Inr map_set_assignments \<Rightarrow>
          let set_assignments = [map (\<lambda>ii. (ii, ii)) [0..<n_ctx]];
              rh = map (new_hypothesis r_ops) set_assignments;
              mh = map (new_hypothesis m_ops) map_set_assignments
          in Inr \<lparr>reward_hypotheses = rh, mapping_hypotheses = mh,
                  belief_rew = replicate (length rh) (1 / real (length rh)),
                  belief_map = replicate (length mh) (1 / real (length mh))\<rparr>)"

section \<open>The orchestrator: \<open>MultiStepAgent.generate\<close>\<close>

text \<open>
  The task (\<open>gridworld.Task\<close>) is outside the files and opaque: \<open>'task\<close> is its state and
  \<open>task_ops\<close> are the members that \<open>generate\<close> uses. \<open>move\<close> returns the experience tuple
  and the task after the move; \<open>trial_data\<close> stands for the static data of the current
  trial that is copied into the output (\<open>action_map\<close>, \<open>goal_location\<close>, \<open>walls\<close>,
  \<open>inverse_abstract_action_key\<close>). Trial numbers and contexts are array indices and
  are modelled as natural numbers.
\<close>

record ('task, 'loc, 'd) task_ops =
  get_state :: "'task \<Rightarrow> ('loc \<times> nat) option"
  current_trial_number :: "'task \<Rightarrow> nat"
  trial_data :: "'task \<Rightarrow> 'd"
  move :: "int \<Rightarrow> 'task \<Rightarrow> 'loc experience \<times> 'task"
  n_trials :: nat
  n_ctx :: nat

text \<open>
  The methods of \<open>self\<close> that \<open>generate\<close> calls are dispatched on the agent's class;
  they are the parameters \<open>agent_ops\<close>, each of which may raise. \<open>select_action\<close>
  returns the action together with the agent (it may draw random numbers).
\<close>

record ('agent, 'loc) agent_ops =
  method_prune_hypothesis_space :: "real \<Rightarrow> 'agent \<Rightarrow> py_error + 'agent"
  method_augment_assignments :: "nat \<Rightarrow> 'agent \<Rightarrow> py_error + 'agent"
  method_select_action :: "'loc \<times> nat \<Rightarrow> 'agent \<Rightarrow> py_error + int \<times> 'agent"
  method_update :: "'loc experience \<Rightarrow> 'agent \<Rightarrow> py_error + 'agent"

text \<open>
  The trace records, in order, what happens in a run: \<open>Observed t c\<close> when an
  iteration has read a state with context \<open>c\<close> during trial \<open>t\<close>, and one event for each
  call of a method of the agent, with its arguments. \<open>PruneHypothesisSpace c threshold\<close>
  is the call \<open>prune_hypothesis_space(threshold)\<close> made in an iteration whose context is
  \<open>c\<close>. The trace is not part of the source; it is what the property of the
  orchestrator is stated on.
\<close>

datatype 'loc event =
  Observed nat nat
| PruneHypothesisSpace nat real
| AugmentAssignments nat
| SelectAction "'loc \<times> nat"
| Update "'loc experience"

text \<open>One row of the output (one \<open>DataFrame\<close> appended to \<open>results\<close>).\<close>

record ('loc, 'd) row =
  experience :: "'loc experience"
  key_press :: int
  n_actions_taken :: nat
  trial_number :: nat
  in_goal :: bool
  times_seen_context :: nat
  static_data :: 'd

record ('task, 'agent, 'loc, 'd) generate_state =
  task :: 'task
  agent :: 'agent
  step_counter :: "nat list"
  times_seen_ctx :: "nat list"
  results :: "('loc, 'd) row list"
  ii :: nat
  trace :: "'loc event list"

text \<open>
  A step of the loop returns the state it reached and the exception that ended it,
  if any.
  \<^verbatim>\<open>
              times_seen_ctx[c] += 1
              # entering a new context, prune the hypothesis space and then augment for new context
              if times_seen_ctx[c] == 1:
                  self.prune_hypothesis_space(threshold=pruning_threshold)
                  # augment the clustering assignments
                  self.augment_assignments(c)
  \<close>
\<close>

definition first_step_of_trial ::
  "('agent, 'loc) agent_ops \<Rightarrow> real \<Rightarrow> nat \<Rightarrow> ('task, 'agent, 'loc, 'd) generate_state \<Rightarrow>
   py_error option \<times> ('task, 'agent, 'loc, 'd) generate_state" where
  "first_step_of_trial ag pruning_threshold c s =
     (if \<not> c < length (times_seen_ctx s) then (Some IndexError, s)
      else
        let s1 = s\<lparr>times_seen_ctx := (times_seen_ctx s)[c := times_seen_ctx s ! c + 1]\<rparr>
        in if times_seen_ctx s1 ! c = 1
           then
             let s2 = s1\<lparr>trace := trace s1 @ [PruneHypothesisSpace c pruning_threshold]\<rparr>
             in case method_prune_hypothesis_space ag pruning_threshold (agent s2) of
                  Inl e \<Rightarrow> (Some e, s2)
                | Inr self1 \<Rightarrow>
                    let s3 = s2\<lparr>agent := self1, trace := trace s2 @ [AugmentAssignments c]\<rparr>
                    in (case method_augment_assignments ag c (agent s3) of
                          Inl e \<Rightarrow> (Some e, s3)
                        | Inr self2 \<Rightarrow> (None, s3\<lparr>agent := self2\<rparr>))
           else (None, s1))"

text \<open>
  The second half of the loop body, from \<open>select_action\<close> to the output row
  (\<open>t\<close> is the trial number read at the start of the iteration):
  \<^verbatim>\<open>
          action = self.select_action(state)
          action_map = self.task.current_trial.action_map
          ...
          experience_tuple = self.task.move(action)
          ((x, y), c), a, aa, r, ((xp, yp), _) = experience_tuple
          self.update(experience_tuple)
          results.append(pd.DataFrame({...
              'context': [c], 'key-press': [action], 'n actions taken': step_counter[t],
              'TrialNumber': [t], 'In goal': not (self.task.current_trial_number == t),
              'Times Seen Context': times_seen_ctx[c], ...}, index=[ii]))
          ii += 1
  \<close>
  The unpacking rebinds \<open>c\<close> to the context of the experience tuple's first state,
  which the row's \<open>times_seen_ctx[c]\<close> reads.
\<close>

definition select_move_update ::
  "('task, 'loc, 'd) task_ops \<Rightarrow> ('agent, 'loc) agent_ops \<Rightarrow> 'loc \<times> nat \<Rightarrow> nat \<Rightarrow>
   ('task, 'agent, 'loc, 'd) generate_state \<Rightarrow>
   py_error option \<times> ('task, 'agent, 'loc, 'd) generate_state" where
  "select_move_update tk ag state t s =
     (let s1 = s\<lparr>trace := trace s @ [SelectAction state]\<rparr>
      in case method_select_action ag state (agent s1) of
           Inl e \<Rightarrow> (Some e, s1)
         | Inr (action, self1) \<Rightarrow>
             let static = trial_data tk (task s1);
                 (experience_tuple, task1) = move tk action (task s1);
                 s2 = s1\<lparr>agent := self1, task := task1,
                        trace := trace s1 @ [Update experience_tuple]\<rparr>
             in (case method_update ag experience_tuple (agent s2) of
                   Inl e \<Rightarrow> (Some e, s2)
                 | Inr self2 \<Rightarrow>
                     let s3 = s2\<lparr>agent := self2\<rparr>;
                         c = snd (fst experience_tuple)
                     in if \<not> c < length (times_seen_ctx s3)
                        then (Some IndexError, s3)
                        else (None,
                          s3\<lparr>results := results s3 @
                               [\<lparr>experience = experience_tuple, key_press = action,
                                 n_actions_taken = step_counter s3 ! t,
                                 trial_number = t,
                                 in_goal = (current_trial_number tk (task s3) \<noteq> t),
                                 times_seen_context = times_seen_ctx s3 ! c,
                                 static_data = static\<rparr>],
                             ii := ii s3 + 1\<rparr>)))"

text \<open>
  The body of the loop, for the state that \<open>get_state\<close> returned:
  \<^verbatim>\<open>
          t = self.task.current_trial_number
          step_counter[t] += 1
          _, c = state
          if step_counter[t] == 1:
              times_seen_ctx[c] += 1
              ...
          action = self.select_action(state)
          ...
  \<close>
\<close>

definition generate_body ::
  "('task, 'loc, 'd) task_ops \<Rightarrow> ('agent, 'loc) agent_ops \<Rightarrow> real \<Rightarrow> 'loc \<times> nat \<Rightarrow>
   ('task, 'agent, 'loc, 'd) generate_state \<Rightarrow>
   py_error option \<times> ('task, 'agent, 'loc, 'd) generate_state" where
  "generate_body tk ag pruning_threshold state s =
     (let t = current_trial_number tk (task s);
          c = snd state;
          s0 = s\<lparr>trace := trace s @ [Observed t c]\<rparr>
      in if \<not> t < length (step_counter s0) then (Some IndexError, s0)
         else
           let s1 = s0\<lparr>step_counter := (step_counter s0)[t := step_counter s0 ! t + 1]\<rparr>
           in case (if step_counter s1 ! t = 1
                    then first_step_of_trial ag pruning_threshold c s1
                    else (None, s1)) of
                (Some e, s2) \<Rightarrow> (Some e, s2)
              | (None, s2) \<Rightarrow> select_move_update tk ag state t s2)"

text \<open>
  \<^verbatim>\<open>
      while True:
          state = self.task.get_state()
          if state is None:
              break
          ...
      return pd.concat(results)
  \<close>
  The loop ends when the task has no further state, which is up to the task: the
  model runs it for at most \<open>fuel\<close> iterations. \<open>pd.concat\<close> raises \<open>ValueError\<close> on an
  empty list.
\<close>

datatype outcome = Returned | Raised py_error | OutOfFuel

fun generate_loop ::
  "('task, 'loc, 'd) task_ops \<Rightarrow> ('agent, 'loc) agent_ops \<Rightarrow> real \<Rightarrow> nat \<Rightarrow>
   ('task, 'agent, 'loc, 'd) generate_state \<Rightarrow>
   outcome \<times> ('task, 'agent, 'loc, 'd) generate_state" where
  "generate_loop tk ag pruning_threshold 0 s = (OutOfFuel, s)"
| "generate_loop tk ag pruning_threshold (Suc fuel) s =
     (case get_state tk (task s) of
        None \<Rightarrow> (if results s = [] then Raised ValueError else Returned, s)
      | Some state \<Rightarrow>
          (case generate_body tk ag pruning_threshold state s of
             (Some e, s') \<Rightarrow> (Raised e, s')
           | (None, s') \<Rightarrow> generate_loop tk ag pruning_threshold fuel s'))"

text \<open>
  \<^verbatim>\<open>
  def generate(self, pruning_threshold=1000):
      step_counter = np.zeros(self.task.n_trials)
      results = list()
      times_seen_ctx = np.zeros(self.task.n_ctx)
      ii = 0
      while True: ...
  \<close>
\<close>

definition generate ::
  "('task, 'loc, 'd) task_ops \<Rightarrow> ('agent, 'loc) agent_ops \<Rightarrow> real \<Rightarrow> nat \<Rightarrow> 'task \<Rightarrow> 'agent \<Rightarrow>
   outcome \<times> ('task, 'agent, 'loc, 'd) generate_state" where
  "generate tk ag pruning_threshold fuel task0 self =
     generate_loop tk ag pruning_threshold fuel
       \<lparr>task = task0, agent = self,
        step_counter = replicate (n_trials tk) 0,
        times_seen_ctx = replicate (n_ctx tk) 0,
        results = [], ii = 0, trace = []\<rparr>"

section \<open>Notions used to state the properties\<close>

text \<open>
  The number of distinct clusters an assignment uses, and the canonical shape of its
  cluster indices: they fill a range starting at 0 with no gap.
\<close>

definition n_clusters :: "'c assignment \<Rightarrow> nat" where
  "n_clusters a = card (snd ` set a)"

definition contiguous :: "'c assignment \<Rightarrow> bool" where
  "contiguous a = (snd ` set a = {0..<n_clusters a})"

text \<open>
  Stirling numbers of the second kind (the number of partitions of \<open>n\<close> elements into
  \<open>k\<close> non-empty blocks) and the Bell numbers, the number of all partitions of
  \<open>n\<close> elements: 1, 1, 2, 5, 15, 52, 203, ... That they count partitions is proved
  below (\<open>card_partitions_Stirling2\<close>, \<open>Bell_partitions\<close>).
\<close>

fun Stirling2 :: "nat \<Rightarrow> nat \<Rightarrow> nat" where
  "Stirling2 0 0 = 1"
| "Stirling2 0 (Suc k) = 0"
| "Stirling2 (Suc n) 0 = 0"
| "Stirling2 (Suc n) (Suc k) = Suc k * Stirling2 n (Suc k) + Stirling2 n k"

definition Bell :: "nat \<Rightarrow> nat" where
  "Bell n = (\<Sum>k\<le>n. Stirling2 n k)"

text \<open>
  The children of one parent assignment for the new context \<open>n\<close>, as the proofs
  describe them, and the invariant of the enumeration loop after \<open>n \<ge> 1\<close> contexts.
\<close>

definition kids :: "nat \<Rightarrow> nat assignment \<Rightarrow> nat assignment list" where
  "kids n a = map (\<lambda>k. a @ [(n, k)]) [0..<Suc (n_clusters a)]"

definition enum_inv :: "nat \<Rightarrow> nat assignment list \<Rightarrow> bool" where
  "enum_inv n L =
     (L \<noteq> [] \<and> distinct L \<and>
      (\<forall>a\<in>set L. map fst a = [0..<n] \<and> contiguous a \<and> map_of a 0 = Some 0) \<and>
      (\<forall>m. length (filter (\<lambda>a. n_clusters a = m) L) = Stirling2 n m))"


text \<open>
  For the flat agent: the population holds exactly one hypothesis pair with one
  belief, and an assignment puts every context in the cluster that bears the
  context's own number.
\<close>

definition population_size_one :: "('s, 't) FlatControlAgent \<Rightarrow> bool" where
  "population_size_one self = (length (task_sets self) = 1 \<and> length (log_belief_flat self) = 1)"

definition own_clusters :: "nat assignment \<Rightarrow> bool" where
  "own_clusters a = (\<forall>(c, k)\<in>set a. k = c)"

text \<open>
  What the orchestrator is to do, as a monitor that reads a trace event by event. It
  remembers the trials whose first step it has seen and the contexts that have been
  entered, and it knows what may come next:
  \<^item> after \<open>Observed t c\<close> on the first step of trial \<open>t\<close>, when context \<open>c\<close> has never
    been entered before, the next call must be \<open>prune_hypothesis_space\<close> with the
    run's threshold, the one after it \<open>augment_assignments(c)\<close>, and then
    \<open>select_action\<close> for this context;
  \<^item> after any other \<open>Observed t c\<close> the next call must be \<open>select_action\<close>: a later
    step of a trial or a repeat visit triggers neither pruning nor augmentation;
  \<^item> \<open>select_action\<close> is followed by \<open>update\<close>, which ends the step.
  A run may stop after any event (the task is exhausted, or a call raised), so every
  prefix of an allowed trace is allowed.
\<close>

datatype phase = Idle | Entering nat | Pruned nat | Ready nat | Selected

type_synonym monitor = "phase \<times> nat list \<times> nat list"

fun monitor_step :: "real \<Rightarrow> monitor \<Rightarrow> 'loc event \<Rightarrow> monitor option" where
  "monitor_step thr (Idle, ts, cs) (Observed t c) =
     (if t \<notin> set ts
      then (if c \<notin> set cs then Some (Entering c, t # ts, c # cs)
            else Some (Ready c, t # ts, cs))
      else Some (Ready c, ts, cs))"
| "monitor_step thr (Entering c, ts, cs) (PruneHypothesisSpace c' thr') =
     (if c' = c \<and> thr' = thr then Some (Pruned c, ts, cs) else None)"
| "monitor_step thr (Pruned c, ts, cs) (AugmentAssignments c') =
     (if c' = c then Some (Ready c, ts, cs) else None)"
| "monitor_step thr (Ready c, ts, cs) (SelectAction state) =
     (if snd state = c then Some (Selected, ts, cs) else None)"
| "monitor_step thr (Selected, ts, cs) (Update experience_tuple) = Some (Idle, ts, cs)"
| "monitor_step thr m e = None"

fun monitor_run :: "real \<Rightarrow> monitor \<Rightarrow> 'loc event list \<Rightarrow> monitor option" where
  "monitor_run thr m [] = Some m"
| "monitor_run thr m (e # es) =
     (case monitor_step thr m e of
        None \<Rightarrow> None
      | Some m' \<Rightarrow> monitor_run thr m' es)"

definition allowed :: "real \<Rightarrow> 'loc event list \<Rightarrow> bool" where
  "allowed thr tr = (monitor_run thr (Idle, [], []) tr \<noteq> None)"

text \<open>
  The invariant of the loop at the start of an iteration: the monitor has read the
  trace and is idle, and the two counter arrays are zero exactly at the trials and
  contexts that the monitor has not seen.
\<close>

definition generate_inv ::
  "real \<Rightarrow> ('task, 'agent, 'loc, 'd) generate_state \<Rightarrow> nat list \<Rightarrow> nat list \<Rightarrow> bool" where
  "generate_inv thr s ts cs =
     (monitor_run thr (Idle, [], []) (trace s) = Some (Idle, ts, cs) \<and>
      (\<forall>t<length (step_counter s). (step_counter s ! t = 0) = (t \<notin> set ts)) \<and>
      (\<forall>c<length (times_seen_ctx s). (times_seen_ctx s ! c = 0) = (c \<notin> set cs)))"

text \<open>
  An example: a task of three trials, the first two in context 0 (the first one takes
  two steps) and the third in context 1, and an agent whose methods do nothing.
\<close>

definition example_schedule :: "(nat \<times> nat) list" where
  "example_schedule = [(0, 0), (0, 0), (1, 0), (2, 1)]"

definition example_task :: "(nat, unit, unit) task_ops" where
  "example_task =
     \<lparr>get_state = (\<lambda>k. if k < length example_schedule
                         then Some ((), snd (example_schedule ! k)) else None),
      current_trial_number = (\<lambda>k. if k < length example_schedule
                                    then fst (example_schedule ! k) else 3),
      trial_data = (\<lambda>k. ()),
      move = (\<lambda>action k. ((((), snd (example_schedule ! k)), action, 0, 0,
                             ((), snd (example_schedule ! k))), Suc k)),
      n_trials = 3, n_ctx = 2\<rparr>"

definition example_agent :: "(unit, unit) agent_ops" where
  "example_agent =
     \<lparr>method_prune_hypothesis_space = (\<lambda>thr self. Inr self),
      method_augment_assignments = (\<lambda>c self. Inr self),
      method_select_action = (\<lambda>state self. Inr (0, self)),
      method_update = (\<lambda>e self. Inr self)\<rparr>"

section \<open>Bell numbers count set partitions\<close>

text \<open>
  The numbers \<open>Stirling2 n k\<close> and \<open>Bell n\<close> are defined by recursion. This section
  shows that they are what their names say: for a finite set \<open>A\<close> there are
  \<open>Stirling2 (card A) k\<close> partitions of \<open>A\<close> into \<open>k\<close> blocks, and \<open>Bell n\<close> partitions of
  \<open>{0, ..., n - 1}\<close>. A partition of \<open>A\<close> with one more element \<open>a\<close> either has the
  block \<open>{a}\<close>, or arises from a partition of \<open>A\<close> by adding \<open>a\<close> to one of its blocks.
\<close>

lemma partition_on_alt_def:
  "partition_on A P \<longleftrightarrow> \<Union>P = A \<and> (\<forall>p\<in>P. \<forall>q\<in>P. p \<noteq> q \<longrightarrow> p \<inter> q = {}) \<and> {} \<notin> P"
  by (auto simp: partition_on_def disjoint_def)

lemma partition_add_singleton:
  assumes "partition_on A P" "a \<notin> A"
  shows "partition_on (insert a A) (insert {a} P)" and "{a} \<notin> P"
  using assms unfolding partition_on_alt_def by auto

lemma partition_add_to_block:
  assumes "partition_on A P" "a \<notin> A" "B \<in> P"
  shows "partition_on (insert a A) (insert (insert a B) (P - {B}))"
    and "insert a B \<notin> P"
proof -
  show "insert a B \<notin> P" using assms unfolding partition_on_alt_def by auto
  show "partition_on (insert a A) (insert (insert a B) (P - {B}))"
    unfolding partition_on_alt_def
  proof (intro conjI ballI impI)
    show "\<Union>(insert (insert a B) (P - {B})) = insert a A"
      using assms unfolding partition_on_alt_def by auto
    show "{} \<notin> insert (insert a B) (P - {B})"
      using assms unfolding partition_on_alt_def by auto
  next
    fix p q
    assume p: "p \<in> insert (insert a B) (P - {B})" and q: "q \<in> insert (insert a B) (P - {B})"
      and ne: "p \<noteq> q"
    have nin: "\<And>r. r \<in> P \<Longrightarrow> a \<notin> r" using assms unfolding partition_on_alt_def by auto
    have dis: "\<And>r. r \<in> P \<Longrightarrow> r \<noteq> B \<Longrightarrow> r \<inter> B = {}"
      using assms unfolding partition_on_alt_def by auto
    have dis2: "\<And>r s. r \<in> P \<Longrightarrow> s \<in> P \<Longrightarrow> r \<noteq> s \<Longrightarrow> r \<inter> s = {}"
      using assms unfolding partition_on_alt_def by auto
    from p q ne show "p \<inter> q = {}"
      using nin dis dis2 by (elim insertE DiffE) (auto dest: nin)
  qed
qed

lemma partition_decompose:
  assumes Q: "partition_on (insert a A) Q" and a: "a \<notin> A"
  shows "(\<exists>P. partition_on A P \<and> Q = insert {a} P) \<or>
         (\<exists>P B. partition_on A P \<and> B \<in> P \<and> Q = insert (insert a B) (P - {B}))"
proof -
  from Q have un: "\<Union>Q = insert a A"
    and dis: "\<And>p q. p \<in> Q \<Longrightarrow> q \<in> Q \<Longrightarrow> p \<noteq> q \<Longrightarrow> p \<inter> q = {}"
    and ne: "{} \<notin> Q"
    unfolding partition_on_alt_def by auto
  from un obtain B' where B': "B' \<in> Q" "a \<in> B'" by blast
  have only: "\<And>p. p \<in> Q \<Longrightarrow> a \<in> p \<Longrightarrow> p = B'"
    using dis B' by blast
  have sub: "\<And>p. p \<in> Q \<Longrightarrow> p \<subseteq> insert a A" using un by blast
  show ?thesis
  proof (cases "B' = {a}")
    case True
    let ?P = "Q - {{a}}"
    have "partition_on A ?P"
      unfolding partition_on_alt_def
    proof (intro conjI ballI impI)
      show "\<Union>?P = A"
      proof
        show "\<Union>?P \<subseteq> A"
        proof
          fix x assume "x \<in> \<Union>?P"
          then obtain p where p: "p \<in> Q" "p \<noteq> {a}" "x \<in> p" by blast
          with only True have "a \<notin> p" by blast
          with p sub show "x \<in> A" by blast
        qed
        show "A \<subseteq> \<Union>?P"
        proof
          fix x assume x: "x \<in> A"
          with un obtain p where p: "p \<in> Q" "x \<in> p" by blast
          from x a have "x \<noteq> a" by blast
          with p have "p \<noteq> {a}" by blast
          with p show "x \<in> \<Union>?P" by blast
        qed
      qed
      show "{} \<notin> ?P" using ne by blast
    next
      fix p q assume "p \<in> ?P" "q \<in> ?P" "p \<noteq> q"
      then show "p \<inter> q = {}" using dis by blast
    qed
    moreover have "Q = insert {a} ?P" using B' True by blast
    ultimately show ?thesis by blast
  next
    case False
    let ?B = "B' - {a}"
    let ?P = "insert ?B (Q - {B'})"
    from False B' have Bne: "?B \<noteq> {}" by blast
    have P: "partition_on A ?P"
      unfolding partition_on_alt_def
    proof (intro conjI ballI impI)
      show "\<Union>?P = A"
      proof
        show "\<Union>?P \<subseteq> A"
        proof
          fix x assume "x \<in> \<Union>?P"
          then consider "x \<in> ?B" | p where "p \<in> Q" "p \<noteq> B'" "x \<in> p" by blast
          then show "x \<in> A"
          proof cases
            case 1
            with sub[OF B'(1)] show ?thesis by blast
          next
            case 2
            with only have "a \<notin> p" by blast
            with 2 sub show ?thesis by blast
          qed
        qed
        show "A \<subseteq> \<Union>?P"
        proof
          fix x assume x: "x \<in> A"
          with un obtain p where p: "p \<in> Q" "x \<in> p" by blast
          from x a have "x \<noteq> a" by blast
          show "x \<in> \<Union>?P"
          proof (cases "p = B'")
            case True
            with p \<open>x \<noteq> a\<close> have "x \<in> ?B" by blast
            then show ?thesis by blast
          next
            case False
            with p show ?thesis by blast
          qed
        qed
      qed
      show "{} \<notin> ?P" using ne Bne by blast
    next
      fix p q assume pq: "p \<in> ?P" "q \<in> ?P" "p \<noteq> q"
      have d1: "\<And>r. r \<in> Q \<Longrightarrow> r \<noteq> B' \<Longrightarrow> r \<inter> ?B = {}"
        using dis[OF _ B'(1)] by blast
      from pq show "p \<inter> q = {}"
        using dis d1 by (elim insertE DiffE) (auto dest: d1)
    qed
    have "?B \<in> ?P" by blast
    moreover have "Q = insert (insert a ?B) (?P - {?B})"
    proof -
      have "insert a ?B = B'" using B' by blast
      moreover have "?B \<notin> Q - {B'}"
      proof
        assume "?B \<in> Q - {B'}"
        then have "?B \<in> Q" "?B \<noteq> B'" by blast+
        from dis[OF this(1) B'(1) this(2)] Bne show False by blast
      qed
      then have "?P - {?B} = Q - {B'}" by blast
      ultimately show ?thesis using B' by auto
    qed
    ultimately show ?thesis using P by blast
  qed
qed

lemma partition_cases_exclusive:
  assumes "partition_on A P" "a \<notin> A" "partition_on A P'" "B \<in> P'"
  shows "insert {a} P \<noteq> insert (insert a B) (P' - {B})"
proof
  assume eq: "insert {a} P = insert (insert a B) (P' - {B})"
  have "{a} \<in> insert (insert a B) (P' - {B})" using eq by blast
  moreover have "B \<noteq> {}" using assms(3,4) unfolding partition_on_alt_def by blast
  moreover have "a \<notin> B" using assms(2,3,4) unfolding partition_on_alt_def by blast
  ultimately have "{a} \<in> P'" by blast
  with assms(2,3) show False unfolding partition_on_alt_def by blast
qed

lemma add_singleton_inj:
  assumes "partition_on A P" "partition_on A P'" "a \<notin> A" "insert {a} P = insert {a} P'"
  shows "P = P'"
proof -
  have "{a} \<notin> P" by (rule partition_add_singleton(2)[OF assms(1,3)])
  moreover have "{a} \<notin> P'" by (rule partition_add_singleton(2)[OF assms(2,3)])
  ultimately show ?thesis using assms(4) by (simp add: insert_ident)
qed

lemma add_to_block_inj:
  assumes P: "partition_on A P" "B \<in> P" and P': "partition_on A P'" "B' \<in> P'" and a: "a \<notin> A"
    and eq: "insert (insert a B) (P - {B}) = insert (insert a B') (P' - {B'})"
  shows "P = P' \<and> B = B'"
proof -
  have nP: "a \<notin> r" if "r \<in> P" for r
    using P(1) a that unfolding partition_on_alt_def by blast
  have nP': "a \<notin> r" if "r \<in> P'" for r
    using P'(1) a that unfolding partition_on_alt_def by blast
  have n1: "insert a B \<notin> P - {B}" using nP[of "insert a B"] by blast
  have n2: "insert a B' \<notin> P' - {B'}" using nP'[of "insert a B'"] by blast
  have "insert a B \<in> insert (insert a B') (P' - {B'})" using eq by blast
  moreover have "insert a B \<notin> P' - {B'}" using nP'[of "insert a B"] by blast
  ultimately have "insert a B = insert a B'" by blast
  with nP[OF P(2)] nP'[OF P'(2)] have B: "B = B'" by (simp add: insert_ident)
  from eq n1 n2 B have "P - {B} = P' - {B}" by (simp add: insert_ident)
  then have "insert B (P - {B}) = insert B (P' - {B})" by simp
  with P(2) P'(2) B have "P = P'" by (simp add: insert_absorb)
  with B show ?thesis by simp
qed

lemma card_add_singleton:
  assumes "finite A" "partition_on A P" "a \<notin> A"
  shows "card (insert {a} P) = Suc (card P)"
proof -
  have "finite P" using assms(1,2) by (rule finite_elements)
  moreover have "{a} \<notin> P" by (rule partition_add_singleton(2)[OF assms(2,3)])
  ultimately show ?thesis by simp
qed

lemma card_add_to_block:
  assumes "finite A" "partition_on A P" "a \<notin> A" "B \<in> P"
  shows "card (insert (insert a B) (P - {B})) = card P"
proof -
  have fin: "finite P" using assms(1,2) by (rule finite_elements)
  have "insert a B \<notin> P" by (rule partition_add_to_block(2)[OF assms(2,3,4)])
  then have "insert a B \<notin> P - {B}" by blast
  with fin have "card (insert (insert a B) (P - {B})) = Suc (card (P - {B}))" by simp
  also have "\<dots> = card P" using card.remove[OF fin assms(4)] by simp
  finally show ?thesis .
qed

lemma partitions_empty_0: "{P. partition_on ({} :: 'a set) P \<and> card P = 0} = {{}}"
  by (auto simp: partition_on_empty)

lemma partitions_empty_Suc: "{P. partition_on ({} :: 'a set) P \<and> card P = Suc j} = {}"
  by (auto simp: partition_on_empty)

lemma partitions_insert_0:
  assumes "finite A"
  shows "{Q. partition_on (insert a A) Q \<and> card Q = 0} = {}"
proof (rule ccontr)
  assume "{Q. partition_on (insert a A) Q \<and> card Q = 0} \<noteq> {}"
  then obtain Q where Q: "partition_on (insert a A) Q" "card Q = 0" by blast
  have "finite (insert a A)" using assms by simp
  then have "finite Q" using Q(1) by (rule finite_elements)
  with Q(2) have "Q = {}" by simp
  with Q(1) show False by (simp add: partition_on_def)
qed

lemma partitions_insert_Suc:
  assumes fin: "finite A" and a: "a \<notin> A"
  shows "{Q. partition_on (insert a A) Q \<and> card Q = Suc j} =
           (\<lambda>P. insert {a} P) ` {P. partition_on A P \<and> card P = j} \<union>
           (\<lambda>(P, B). insert (insert a B) (P - {B})) `
              (SIGMA P:{P. partition_on A P \<and> card P = Suc j}. P)"
    (is "?L = ?F ` ?Pj \<union> ?G ` ?Sig")
proof (intro equalityI subsetI)
  fix Q assume "Q \<in> ?L"
  then have Q: "partition_on (insert a A) Q" "card Q = Suc j" by simp_all
  from partition_decompose[OF Q(1) a] show "Q \<in> ?F ` ?Pj \<union> ?G ` ?Sig"
  proof
    assume "\<exists>P. partition_on A P \<and> Q = insert {a} P"
    then obtain P where P: "partition_on A P" "Q = insert {a} P" by blast
    from card_add_singleton[OF fin P(1) a] Q(2) P(2) have "card P = j" by simp
    with P(1) have "P \<in> ?Pj" by simp
    then have "?F P \<in> ?F ` ?Pj" by (rule imageI)
    with P(2) show ?thesis by simp
  next
    assume "\<exists>P B. partition_on A P \<and> B \<in> P \<and> Q = insert (insert a B) (P - {B})"
    then obtain P B where P: "partition_on A P" "B \<in> P"
      "Q = insert (insert a B) (P - {B})" by blast
    from card_add_to_block[OF fin P(1) a P(2)] Q(2) P(3) have "card P = Suc j" by simp
    with P have "(P, B) \<in> ?Sig" by simp
    then have "?G (P, B) \<in> ?G ` ?Sig" by (rule imageI)
    with P(3) show ?thesis by simp
  qed
next
  fix Q assume "Q \<in> ?F ` ?Pj \<union> ?G ` ?Sig"
  then show "Q \<in> ?L"
  proof
    assume "Q \<in> ?F ` ?Pj"
    then obtain P where "P \<in> ?Pj" and Qe: "Q = insert {a} P" by (rule imageE)
    then have P: "partition_on A P" "card P = j" by simp_all
    from partition_add_singleton(1)[OF P(1) a] card_add_singleton[OF fin P(1) a] P(2) Qe
    show ?thesis by simp
  next
    assume "Q \<in> ?G ` ?Sig"
    then obtain x where x: "x \<in> ?Sig" and Qx: "Q = ?G x" by (rule imageE)
    obtain P B where xe: "x = (P, B)" by (cases x)
    from x xe have P: "partition_on A P" "card P = Suc j" "B \<in> P" by simp_all
    from Qx xe have Qe: "Q = insert (insert a B) (P - {B})" by simp
    from partition_add_to_block(1)[OF P(1) a P(3)] card_add_to_block[OF fin P(1) a P(3)] P(2) Qe
    show ?thesis by simp
  qed
qed

lemma partitions_insert_disjoint:
  assumes a: "a \<notin> A"
  shows "(\<lambda>P. insert {a} P) ` {P. partition_on A P \<and> card P = j} \<inter>
         (\<lambda>(P, B). insert (insert a B) (P - {B})) `
            (SIGMA P:{P. partition_on A P \<and> card P = Suc j}. P) = {}"
    (is "?F ` ?Pj \<inter> ?G ` ?Sig = {}")
proof (rule ccontr)
  assume "?F ` ?Pj \<inter> ?G ` ?Sig \<noteq> {}"
  then obtain Q where Q1: "Q \<in> ?F ` ?Pj" and Q2: "Q \<in> ?G ` ?Sig" by blast
  from Q1 obtain P where "P \<in> ?Pj" and Qe: "Q = insert {a} P" by (rule imageE)
  then have P: "partition_on A P" by simp
  from Q2 obtain x where x: "x \<in> ?Sig" and Qx: "Q = ?G x" by (rule imageE)
  obtain P' B where xe: "x = (P', B)" by (cases x)
  from x xe have P': "partition_on A P'" "B \<in> P'" by simp_all
  from Qx xe have "Q = insert (insert a B) (P' - {B})" by simp
  with Qe partition_cases_exclusive[OF P a P'] show False by simp
qed

lemma add_singleton_inj_on:
  assumes a: "a \<notin> A"
  shows "inj_on (\<lambda>P. insert {a} P) {P. partition_on A P \<and> card P = j}"
proof (rule inj_onI)
  fix P P' assume "P \<in> {P. partition_on A P \<and> card P = j}" "P' \<in> {P. partition_on A P \<and> card P = j}"
    and e: "insert {a} P = insert {a} P'"
  then have "partition_on A P" "partition_on A P'" by simp_all
  from add_singleton_inj[OF this a e] show "P = P'" .
qed

lemma add_to_block_inj_on:
  assumes a: "a \<notin> A"
  shows "inj_on (\<lambda>(P, B). insert (insert a B) (P - {B}))
           (SIGMA P:{P. partition_on A P \<and> card P = Suc j}. P)"
    (is "inj_on ?G ?Sig")
proof (rule inj_onI)
  fix x y assume x: "x \<in> ?Sig" and y: "y \<in> ?Sig" and e: "?G x = ?G y"
  obtain P B where xe: "x = (P, B)" by (cases x)
  obtain P' B' where ye: "y = (P', B')" by (cases y)
  from x xe have p: "partition_on A P" "B \<in> P" by simp_all
  from y ye have p': "partition_on A P'" "B' \<in> P'" by simp_all
  from e xe ye have "insert (insert a B) (P - {B}) = insert (insert a B') (P' - {B'})" by simp
  from add_to_block_inj[OF p p' a this] xe ye show "x = y" by simp
qed

lemma card_partitions_Stirling2:
  assumes "finite A"
  shows "card {P. partition_on A P \<and> card P = k} = Stirling2 (card A) k"
  using assms
proof (induction A arbitrary: k rule: finite_induct)
  case empty
  show ?case
  proof (cases k)
    case 0
    show ?thesis unfolding 0 partitions_empty_0 by simp
  next
    case (Suc j)
    show ?thesis unfolding Suc partitions_empty_Suc by simp
  qed
next
  case (insert a A)
  note fin = \<open>finite A\<close> and a = \<open>a \<notin> A\<close>
  have cardA: "card (insert a A) = Suc (card A)" using fin a by simp
  show ?case
  proof (cases k)
    case 0
    show ?thesis unfolding 0 partitions_insert_0[OF fin] cardA by simp
  next
    case (Suc j)
    let ?Pj = "{P. partition_on A P \<and> card P = j}"
    let ?Ps = "{P. partition_on A P \<and> card P = Suc j}"
    let ?F = "\<lambda>P. insert {a} P"
    let ?G = "\<lambda>(P, B). insert (insert a B) (P - {B})"
    let ?Sig = "SIGMA P:?Ps. P"
    have finPj: "finite ?Pj" and finPs: "finite ?Ps"
      using finitely_many_partition_on[OF fin] by simp_all
    have finmem: "finite P" if "P \<in> ?Ps" for P
    proof -
      from that have "partition_on A P" by simp
      with fin show ?thesis by (rule finite_elements)
    qed
    have finSig: "finite ?Sig" using finPs finmem by (rule finite_SigmaI)
    have c1: "card (?F ` ?Pj) = Stirling2 (card A) j"
      using card_image[OF add_singleton_inj_on[OF a, of j]] insert.IH[of j] by simp
    have "card (?G ` ?Sig) = card ?Sig"
      by (rule card_image[OF add_to_block_inj_on[OF a, of j]])
    also have "\<dots> = (\<Sum>P\<in>?Ps. card P)" using finPs finmem by (intro card_SigmaI ballI)
    also have "\<dots> = (\<Sum>P\<in>?Ps. Suc j)" by (rule sum.cong) simp_all
    also have "\<dots> = Suc j * card ?Ps" by simp
    finally have c2: "card (?G ` ?Sig) = Suc j * Stirling2 (card A) (Suc j)"
      using insert.IH[of "Suc j"] by simp
    have "card (?F ` ?Pj \<union> ?G ` ?Sig) = card (?F ` ?Pj) + card (?G ` ?Sig)"
    proof (rule card_Un_disjoint)
      show "finite (?F ` ?Pj)" using finPj by (rule finite_imageI)
      show "finite (?G ` ?Sig)" using finSig by (rule finite_imageI)
      show "?F ` ?Pj \<inter> ?G ` ?Sig = {}" by (rule partitions_insert_disjoint[OF a])
    qed
    with c1 c2 show ?thesis
      unfolding Suc partitions_insert_Suc[OF fin a] cardA by simp
  qed
qed

lemma Stirling2_above: "n < k \<Longrightarrow> Stirling2 n k = 0"
  by (induction n k rule: Stirling2.induct) simp_all

lemma Bell_partitions: "Bell n = card {P. partition_on {0..<n} P}"
proof -
  let ?A = "{0..<n}"
  have fin: "finite {P. partition_on ?A P}" by (rule finitely_many_partition_on) simp
  have bound: "card P \<le> n" if "partition_on ?A P" for P
  proof -
    from that have fP: "finite P" by (intro finite_elements[of ?A]) simp_all
    from that have ne: "\<And>p. p \<in> P \<Longrightarrow> p \<noteq> {}" and sub: "\<And>p. p \<in> P \<Longrightarrow> p \<subseteq> ?A"
      and dis: "\<And>p q. p \<in> P \<Longrightarrow> q \<in> P \<Longrightarrow> p \<noteq> q \<Longrightarrow> p \<inter> q = {}"
      unfolding partition_on_alt_def by blast+
    have "inj_on Min P"
    proof (rule inj_onI)
      fix p q assume p: "p \<in> P" and q: "q \<in> P" and e: "Min p = Min q"
      have "finite p" "finite q" using sub[OF p] sub[OF q] by (auto intro: finite_subset)
      then have "Min p \<in> p" "Min q \<in> q" using ne[OF p] ne[OF q] by simp_all
      with e have "p \<inter> q \<noteq> {}" by auto
      with dis[OF p q] show "p = q" by blast
    qed
    then have "card P = card (Min ` P)" by (simp add: card_image)
    also have "Min ` P \<subseteq> ?A"
    proof
      fix x assume "x \<in> Min ` P"
      then obtain p where p: "p \<in> P" "x = Min p" by blast
      have "finite p" using sub[OF p(1)] by (auto intro: finite_subset)
      then have "Min p \<in> p" using ne[OF p(1)] by simp
      with sub[OF p(1)] p(2) show "x \<in> ?A" by blast
    qed
    then have "card (Min ` P) \<le> card ?A" by (intro card_mono) simp_all
    finally show ?thesis by simp
  qed
  have "{P. partition_on ?A P} = (\<Union>k\<in>{..n}. {P. partition_on ?A P \<and> card P = k})"
    using bound by auto
  then have "card {P. partition_on ?A P} = card (\<Union>k\<in>{..n}. {P. partition_on ?A P \<and> card P = k})"
    by simp
  also have "\<dots> = (\<Sum>k\<in>{..n}. card {P. partition_on ?A P \<and> card P = k})"
  proof (rule card_UN_disjoint)
    show "finite {..n}" by simp
    show "\<forall>k\<in>{..n}. finite {P. partition_on ?A P \<and> card P = k}"
      using fin by simp
    show "\<forall>i\<in>{..n}. \<forall>j\<in>{..n}. i \<noteq> j \<longrightarrow>
        {P. partition_on ?A P \<and> card P = i} \<inter> {P. partition_on ?A P \<and> card P = j} = {}"
      by auto
  qed
  also have "\<dots> = (\<Sum>k\<le>n. Stirling2 n k)"
    by (intro sum.cong refl) (simp add: card_partitions_Stirling2)
  finally show ?thesis by (simp add: Bell_def)
qed

section \<open>Properties of the assignment enumerator\<close>

subsection \<open>Basic facts\<close>

lemma py_max_Max: "xs \<noteq> [] \<Longrightarrow> py_max xs = Inr (Max (set xs))"
proof (cases xs)
  case Nil
  assume "xs \<noteq> []"
  with Nil show ?thesis by simp
next
  case (Cons a list)
  show ?thesis unfolding Cons by (simp only: py_max.simps Max.set_eq_fold)
qed

lemma update_fresh: "c \<notin> fst ` set a \<Longrightarrow> AList.update c k a = a @ [(c, k)]"
  by (induction a) auto

lemma new_list_nonempty:
  "a \<noteq> [] \<Longrightarrow> new_list a c = Inr (map (\<lambda>k. AList.update c k a) [0..<Max (snd ` set a) + 2])"
  by (simp add: new_list_def py_max_Max)

lemma augment_loop_nonempty:
  "\<forall>a\<in>set as. a \<noteq> [] \<Longrightarrow>
   augment_loop as c acc =
     Inr (acc @ concat (map (\<lambda>a. map (\<lambda>k. AList.update c k a) [0..<Max (snd ` set a) + 2]) as))"
  by (induction as arbitrary: acc) (simp_all add: new_list_nonempty)

lemma Max_contig: "Max {0..<Suc m} = m"
  by (rule Max_eqI) auto

lemma contiguousI: "snd ` set a = {0..<m} \<Longrightarrow> contiguous a"
  by (simp add: contiguous_def n_clusters_def)

lemma length_filter_concat:
  "length (filter P (concat xss)) = sum_list (map (\<lambda>xs. length (filter P xs)) xss)"
  by (induction xss) simp_all

lemma sum_list_if_const:
  "sum_list (map (\<lambda>a. if Q a then (c::nat) else 0) L) = c * length (filter Q L)"
  by (induction L) simp_all

lemma length_by_class:
  "\<forall>a\<in>set L. f a \<le> (N::nat) \<Longrightarrow> length L = (\<Sum>m\<le>N. length (filter (\<lambda>a. f a = m) L))"
proof (induction L)
  case Nil
  then show ?case by simp
next
  case (Cons x L)
  have "(\<Sum>m\<le>N. length (filter (\<lambda>a. f a = m) (x # L)))
      = (\<Sum>m\<le>N. (if f x = m then 1 else 0) + length (filter (\<lambda>a. f a = m) L))"
    by (intro sum.cong) auto
  also have "\<dots> = (\<Sum>m\<le>N. (if f x = m then 1 else 0)) + (\<Sum>m\<le>N. length (filter (\<lambda>a. f a = m) L))"
    by (simp add: sum.distrib)
  also have "(\<Sum>m\<le>N. (if f x = m then 1 else 0)) = (1::nat)"
    using Cons.prems by simp
  finally show ?case using Cons by simp
qed

lemma n_clusters_child:
  assumes "contiguous a" "k \<le> n_clusters a"
  shows "n_clusters (a @ [(n, k)]) = (if k = n_clusters a then Suc (n_clusters a) else n_clusters a)"
    and "contiguous (a @ [(n, k)])"
proof -
  have s: "snd ` set (a @ [(n, k)]) = insert k {0..<n_clusters a}"
    using assms by (auto simp: contiguous_def)
  have "insert k {0..<n_clusters a} = (if k = n_clusters a then {0..<Suc (n_clusters a)} else {0..<n_clusters a})"
    using assms(2) by auto
  with s have s': "snd ` set (a @ [(n, k)]) = (if k = n_clusters a then {0..<Suc (n_clusters a)} else {0..<n_clusters a})"
    by simp
  then show "n_clusters (a @ [(n, k)]) = (if k = n_clusters a then Suc (n_clusters a) else n_clusters a)"
    by (simp add: n_clusters_def[of "a @ [(n, k)]"])
  with s' show "contiguous (a @ [(n, k)])"
    by (simp add: contiguous_def[of "a @ [(n, k)]"])
qed

lemma count_kids:
  assumes "contiguous a"
  shows "length (filter (\<lambda>b. n_clusters b = m) (kids n a))
       = (if n_clusters a = m then m else 0) + (if Suc (n_clusters a) = m then 1 else 0)"
proof -
  have "filter (\<lambda>b. n_clusters b = m) (kids n a)
      = map (\<lambda>k. a @ [(n, k)]) (filter (\<lambda>k. n_clusters (a @ [(n, k)]) = m) [0..<Suc (n_clusters a)])"
    by (simp add: kids_def filter_map comp_def)
  also have "filter (\<lambda>k. n_clusters (a @ [(n, k)]) = m) [0..<Suc (n_clusters a)]
      = filter (\<lambda>k. (if k = n_clusters a then Suc (n_clusters a) else n_clusters a) = m) [0..<Suc (n_clusters a)]"
    using n_clusters_child(1)[OF assms] by (intro filter_cong) auto
  finally show ?thesis by auto
qed

lemma Stirling2_one: "Stirling2 (Suc 0) m = (if m = Suc 0 then 1 else 0)"
proof (cases m)
  case 0
  then show ?thesis by simp
next
  case (Suc k)
  then show ?thesis by (cases k) simp_all
qed

lemma enum_inv_base: "enum_inv (Suc 0) [[(0, 0)]]"
  by (auto simp: enum_inv_def contiguous_def n_clusters_def Stirling2_one)

lemma kids_nonempty: "kids n a \<noteq> []"
  by (simp add: kids_def)

lemma distinct_kids: "distinct (kids n a)"
  by (simp add: kids_def distinct_map inj_on_def del: upt_Suc)

lemma kid_parent: "b \<in> set (kids n a) \<Longrightarrow> butlast b = a"
  by (auto simp: kids_def)

lemma distinct_concat_kids:
  assumes "distinct L"
  shows "distinct (concat (map (kids n) L))"
proof (rule distinct_concat)
  show "distinct (map (kids n) L)"
  proof (subst distinct_map, intro conjI inj_onI)
    show "distinct L" by (rule assms)
  next
    fix a a' assume "kids n a = kids n a'"
    then have "hd (kids n a) = hd (kids n a')" by simp
    then show "a = a'" by (simp add: kids_def hd_map del: upt_Suc)
  qed
next
  fix ys assume "ys \<in> set (map (kids n) L)"
  then show "distinct ys" using distinct_kids by auto
next
  fix ys zs
  assume "ys \<in> set (map (kids n) L)" "zs \<in> set (map (kids n) L)" "ys \<noteq> zs"
  then obtain a a' where "ys = kids n a" "zs = kids n a'" "a \<noteq> a'" by auto
  then show "set ys \<inter> set zs = {}" using kid_parent by blast
qed

lemma contiguous_Max:
  assumes "contiguous a" "a \<noteq> []"
  shows "Max (snd ` set a) + 2 = Suc (n_clusters a)"
proof -
  have "snd ` set a \<noteq> {}" using assms(2) by simp
  then obtain m' where m: "n_clusters a = Suc m'"
    using assms(1) by (cases "n_clusters a") (auto simp: contiguous_def)
  then have "snd ` set a = {0..<Suc m'}" using assms(1) by (simp add: contiguous_def)
  then show ?thesis using Max_contig m by simp
qed

lemma n_clusters_le: "n_clusters a \<le> length a"
  unfolding n_clusters_def by (metis card_image_le card_length le_trans List.finite_set)

lemma enum_inv_step:
  assumes inv: "enum_inv n L" and n: "1 \<le> n"
  shows "augment_assignments L n = Inr (concat (map (kids n) L))"
    and "enum_inv (Suc n) (concat (map (kids n) L))"
proof -
  from inv have ne: "L \<noteq> []" and dist: "distinct L"
    and el: "\<And>a. a \<in> set L \<Longrightarrow> map fst a = [0..<n] \<and> contiguous a \<and> map_of a 0 = Some 0"
    and cnt: "\<And>m. length (filter (\<lambda>a. n_clusters a = m) L) = Stirling2 n m"
    by (auto simp: enum_inv_def)
  have nonempty: "a \<noteq> []" if "a \<in> set L" for a
    using el[OF that] n by auto
  have fresh: "n \<notin> fst ` set a" if "a \<in> set L" for a
  proof -
    have "fst ` set a = set (map fst a)" by simp
    also have "\<dots> = {0..<n}" using el[OF that] by simp
    finally show ?thesis by simp
  qed
  have kids_eq: "map (\<lambda>k. AList.update n k a) [0..<Max (snd ` set a) + 2] = kids n a"
    if "a \<in> set L" for a
    using contiguous_Max[of a] el[OF that] nonempty[OF that] update_fresh[OF fresh[OF that]]
    by (simp add: kids_def del: upt_Suc)
  have "augment_loop L n [] =
      Inr ([] @ concat (map (\<lambda>a. map (\<lambda>k. AList.update n k a) [0..<Max (snd ` set a) + 2]) L))"
    using nonempty by (intro augment_loop_nonempty) simp
  also have "map (\<lambda>a. map (\<lambda>k. AList.update n k a) [0..<Max (snd ` set a) + 2]) L = map (kids n) L"
    using kids_eq by (intro map_cong) auto
  finally have loop: "augment_loop L n [] = Inr (concat (map (kids n) L))" by simp
  have "hd L \<in> set L" using ne by simp
  then have "hd L \<noteq> []" by (rule nonempty)
  then show "augment_assignments L n = Inr (concat (map (kids n) L))"
    using ne loop by (simp add: augment_assignments_def py_getitem_def hd_conv_nth)
  show "enum_inv (Suc n) (concat (map (kids n) L))"
    unfolding enum_inv_def
  proof (intro conjI ballI allI)
    show "concat (map (kids n) L) \<noteq> []"
      using ne kids_nonempty by (cases L) auto
    show "distinct (concat (map (kids n) L))"
      using dist by (rule distinct_concat_kids)
  next
    fix b assume "b \<in> set (concat (map (kids n) L))"
    then obtain a k where a: "a \<in> set L" and k: "k \<le> n_clusters a" and b: "b = a @ [(n, k)]"
      by (auto simp: kids_def)
    show "map fst b = [0..<Suc n]" using el[OF a] b by simp
    show "contiguous b" using n_clusters_child(2)[of a k n] el[OF a] k b by simp
    show "map_of b 0 = Some 0" using el[OF a] b by (simp add: map_add_Some_iff)
  next
    fix m
    have "length (filter (\<lambda>b. n_clusters b = m) (concat (map (kids n) L)))
        = sum_list (map (\<lambda>a. length (filter (\<lambda>b. n_clusters b = m) (kids n a))) L)"
      by (simp add: length_filter_concat comp_def)
    also have "\<dots> = sum_list (map (\<lambda>a. (if n_clusters a = m then m else 0)
                                      + (if Suc (n_clusters a) = m then 1 else 0)) L)"
      using el count_kids by (intro arg_cong[where f=sum_list] map_cong) auto
    also have "\<dots> = sum_list (map (\<lambda>a. if n_clusters a = m then m else 0) L)
                   + sum_list (map (\<lambda>a. if Suc (n_clusters a) = m then 1 else 0) L)"
      by (simp add: sum_list_addf)
    also have "\<dots> = m * length (filter (\<lambda>a. n_clusters a = m) L)
                   + 1 * length (filter (\<lambda>a. Suc (n_clusters a) = m) L)"
      by (simp only: sum_list_if_const)
    also have "\<dots> = Stirling2 (Suc n) m"
    proof (cases m)
      case 0
      then show ?thesis by simp
    next
      case (Suc k)
      then show ?thesis using cnt[of "Suc k"] cnt[of k] by simp
    qed
    finally show "length (filter (\<lambda>a. n_clusters a = m) (concat (map (kids n) L))) = Stirling2 (Suc n) m" .
  qed
qed

lemma enumerate_loop_inv:
  "enum_inv n L \<Longrightarrow> 1 \<le> n \<Longrightarrow>
   \<exists>L'. enumerate_loop [n..<n + k] L = Inr L' \<and> enum_inv (n + k) L'"
proof (induction k arbitrary: n L)
  case 0
  then show ?case by simp
next
  case (Suc k)
  have "[n..<n + Suc k] = n # [Suc n..<Suc n + k]" by (simp add: upt_conv_Cons)
  moreover from Suc.IH[of "Suc n" "concat (map (kids n) L)"] enum_inv_step[OF Suc.prems]
  obtain L' where "enumerate_loop [Suc n..<Suc n + k] (concat (map (kids n) L)) = Inr L'"
    "enum_inv (Suc n + k) L'" by auto
  ultimately show ?case using enum_inv_step(1)[OF Suc.prems] by simp
qed

lemma enum_inv_length: "enum_inv n L \<Longrightarrow> length L = Bell n"
proof -
  assume inv: "enum_inv n L"
  then have "\<forall>a\<in>set L. n_clusters a \<le> n"
    using n_clusters_le by (fastforce simp: enum_inv_def dest!: arg_cong[where f=length])
  then have "length L = (\<Sum>m\<le>n. length (filter (\<lambda>a. n_clusters a = m) L))"
    by (rule length_by_class)
  with inv show ?thesis by (simp add: enum_inv_def Bell_def)
qed

subsection \<open>An empty list of assignments\<close>

text \<open>
  Claim C10. Calling \<open>augment_assignments\<close> with an empty list of assignments raises
  (the guard reads \<open>cluster_assignments[0]\<close> although the list is empty, because \<open>|\<close>
  does not short-circuit); it does not return the one-element list holding the
  singleton assignment \<open>{new_context: 0}\<close>. That list is what the call returns for
  the list holding one empty assignment, and it is returned exactly when the list is
  not empty and its first assignment is empty.
\<close>

theorem augment_assignments_empty_list:
  "augment_assignments [] c = Inl IndexError \<and>
   augment_assignments [[]] c = Inr [[(c, 0)]] \<and>
   (augment_assignments L c = Inr [[(c, 0)]] \<longleftrightarrow> L \<noteq> [] \<and> hd L = [])"
proof (intro conjI)
  show "augment_assignments [] c = Inl IndexError"
    by (simp add: augment_assignments_def py_getitem_def)
  show "augment_assignments [[]] c = Inr [[(c, 0)]]"
    by (simp add: augment_assignments_def py_getitem_def)
  show "augment_assignments L c = Inr [[(c, 0)]] \<longleftrightarrow> L \<noteq> [] \<and> hd L = []"
  proof (cases L)
    case Nil
    then show ?thesis by (simp add: augment_assignments_def py_getitem_def)
  next
    case (Cons a rest)
    show ?thesis
    proof (cases "a = []")
      case True
      with Cons show ?thesis by (simp add: augment_assignments_def py_getitem_def)
    next
      case False
      have two: "augment_loop rest c acc = Inr r \<Longrightarrow> length acc \<le> length r" for rest acc r
      proof (induction rest arbitrary: acc)
        case Nil
        then show ?case by simp
      next
        case (Cons b rest)
        then obtain nl where "augment_loop rest c (acc @ nl) = Inr r"
          by (auto split: sum.splits)
        from Cons.IH[OF this] show ?case by simp
      qed
      have "augment_loop (a # rest) c [] \<noteq> Inr [[(c, 0)]]"
      proof
        assume h: "augment_loop (a # rest) c [] = Inr [[(c, 0)]]"
        then have "augment_loop rest c (map (\<lambda>k. AList.update c k a) [0..<Max (snd ` set a) + 2]) = Inr [[(c, 0)]]"
          using False by (simp add: new_list_nonempty)
        from two[OF this] show False by simp
      qed
      with Cons False show ?thesis by (simp add: augment_assignments_def py_getitem_def)
    qed
  qed
qed

subsection \<open>Incremental augmentation of one assignment\<close>

text \<open>
  Claim C6. For a canonical parent assignment \<open>a\<close> with \<open>m\<close> distinct clusters (its
  cluster indices are exactly \<open>0, ..., m - 1\<close>) and a context \<open>c\<close> that \<open>a\<close> does not
  assign, \<open>augment_assignments [a] c\<close> returns exactly \<open>m + 1\<close> children, in the order
  \<open>k = 0, ..., m\<close>. Child \<open>k\<close> is the parent with the one entry \<open>c \<mapsto> k\<close> added, so
  it agrees with the parent on every original context; the children \<open>k < m\<close> put
  \<open>c\<close> in an existing cluster and the last child puts it in the new cluster \<open>m\<close>.
\<close>

theorem augment_assignments_children:
  assumes "snd ` set a = {0..<m}" and "c \<notin> fst ` set a"
  shows "augment_assignments [a] c = Inr (map (\<lambda>k. a @ [(c, k)]) [0..<Suc m])"
proof (cases "a = []")
  case True
  with assms have "m = 0" by auto
  with True show ?thesis by (simp add: augment_assignments_def py_getitem_def)
next
  case False
  then have "snd ` set a \<noteq> {}" by auto
  with assms obtain m' where m: "m = Suc m'" by (cases m) auto
  have "Max (snd ` set a) = m'" using assms(1) m Max_contig by simp
  moreover have "augment_loop [a] c [] =
      Inr ([] @ concat (map (\<lambda>a. map (\<lambda>k. AList.update c k a) [0..<Max (snd ` set a) + 2]) [a]))"
    using False by (intro augment_loop_nonempty) simp
  ultimately show ?thesis using False assms(2)
    by (simp add: augment_assignments_def py_getitem_def update_fresh m del: upt_Suc augment_loop.simps)
qed

theorem augment_assignments_children_witness:
  "snd ` set [(0::nat, 0::nat), (1, 1)] = {0..<2} \<and> (2::nat) \<notin> fst ` set [(0::nat, 0::nat), (1, 1)] \<and>
   augment_assignments [[(0::nat, 0), (1, 1)]] 2 =
     Inr [[(0, 0), (1, 1), (2, 0)], [(0, 0), (1, 1), (2, 1)], [(0, 0), (1, 1), (2, 2)]]"
proof -
  have h1: "snd ` set [(0::nat, 0::nat), (1, 1)] = {0..<2}" by auto
  have h2: "(2::nat) \<notin> fst ` set [(0::nat, 0::nat), (1, 1)]" by simp
  have "[0..<Suc 2] = [0, 1, 2]" by (simp add: upt_rec)
  with augment_assignments_children[OF h1 h2] h1 h2 show ?thesis by simp
qed

subsection \<open>A context that is already assigned\<close>

text \<open>
  Claim C4, as the code has it. \<open>augment_assignments\<close> makes no check on
  \<open>new_context\<close>: when the assignment already contains the context, the call does
  not raise. It returns one child for each \<open>k\<close> from 0 to the largest cluster index
  plus one, and in child \<open>k\<close> the context's former cluster is replaced by \<open>k\<close>; the
  keys and every other context's cluster are those of the parent.
\<close>

theorem augment_assignments_overwrites:
  assumes "c \<in> fst ` set a"
  shows "augment_assignments [a] c =
           Inr (map (\<lambda>k. AList.update c k a) [0..<Max (snd ` set a) + 2]) \<and>
         map_of (AList.update c k a) = (map_of a)(c \<mapsto> k) \<and>
         map fst (AList.update c k a) = map fst a"
proof -
  from assms have ne: "a \<noteq> []" by auto
  have "augment_loop [a] c [] =
      Inr ([] @ concat (map (\<lambda>a. map (\<lambda>k. AList.update c k a) [0..<Max (snd ` set a) + 2]) [a]))"
    using ne by (intro augment_loop_nonempty) simp
  then have "augment_assignments [a] c =
           Inr (map (\<lambda>k. AList.update c k a) [0..<Max (snd ` set a) + 2])"
    using ne by (simp add: augment_assignments_def py_getitem_def del: augment_loop.simps)
  moreover have "map fst (AList.update c k a) = map fst a"
    using assms by (simp add: update_keys)
  ultimately show ?thesis by (simp add: update_conv')
qed

theorem augment_assignments_overwrites_witness:
  "(0::nat) \<in> fst ` set [(0::nat, 0::nat)] \<and>
   augment_assignments [[(0::nat, 0)]] 0 = Inr [[(0, 0)], [(0, 1)]] \<and>
   map_of (AList.update (0::nat) 1 [(0, 0)]) 0 = Some (1::nat)"
proof -
  have h: "(0::nat) \<in> fst ` set [(0::nat, 0::nat)]" by simp
  have "[0..<2] = [0, Suc 0]" by (simp add: upt_rec)
  with augment_assignments_overwrites[OF h, of 1] h show ?thesis by simp
qed

text \<open>
  The claim as stated asks for a failure here. On \<open>[{0: 0}]\<close> and context 0 the call
  returns two assignments, and the second one maps context 0 to cluster 1.
\<close>

theorem augment_assignments_no_precondition_check:
  "augment_assignments [[(0::nat, 0)]] 0 = Inr [[(0, 0)], [(0, 1)]]"
  by (simp add: augment_assignments_def py_getitem_def new_list_def upt_rec)

subsection \<open>Full enumeration\<close>

lemma enumerate_assignments_inv:
  "\<exists>L. enumerate_assignments N = Inr L \<and> (N = 0 \<and> L = [[]] \<or> 0 < N \<and> enum_inv N L)"
proof (cases N)
  case 0
  then show ?thesis by (simp add: enumerate_assignments_def)
next
  case (Suc k)
  have "[0..<Suc k] = 0 # [Suc 0..<Suc 0 + k]" by (simp add: upt_conv_Cons)
  then have "enumerate_assignments N = enumerate_loop [Suc 0..<Suc 0 + k] [[(0, 0)]]"
    using Suc by (simp add: enumerate_assignments_def augment_assignments_def py_getitem_def)
  moreover obtain L' where "enumerate_loop [Suc 0..<Suc 0 + k] [[(0, 0)]] = Inr L'"
    "enum_inv (Suc 0 + k) L'"
    using enumerate_loop_inv[OF enum_inv_base, of k] by auto
  ultimately show ?thesis using Suc by auto
qed

lemma Bell_0: "Bell 0 = 1"
  by (simp add: Bell_def)

lemma enumerate_assignments_length:
  "\<exists>L. enumerate_assignments N = Inr L \<and> length L = Bell N"
  using enumerate_assignments_inv[of N] enum_inv_length[of N] by (auto simp: Bell_0)

text \<open>
  Claim C7, as the code has it. For every \<open>N\<close>, \<open>enumerate_assignments N\<close> returns (it
  raises nothing) a list of exactly \<open>Bell N\<close> assignments, as many as there are
  partitions of \<open>{0, ..., N - 1}\<close>, no two of them equal. Each
  assigns exactly the contexts \<open>0, ..., N - 1\<close>, uses a contiguous range of cluster
  indices starting at 0 and, when \<open>N \<ge> 1\<close>, maps context 0 to cluster 0.
\<close>

theorem enumerate_assignments_Bell:
  "\<exists>as. enumerate_assignments N = Inr as \<and> length as = Bell N \<and>
      length as = card {P. partition_on {0..<N} P} \<and> distinct as \<and>
      (\<forall>a\<in>set as. map fst a = [0..<N] \<and> (0 < N \<longrightarrow> map_of a 0 = Some 0) \<and> contiguous a)"
proof -
  from enumerate_assignments_inv[of N] obtain L where
    L: "enumerate_assignments N = Inr L" "N = 0 \<and> L = [[]] \<or> 0 < N \<and> enum_inv N L" by blast
  from L(2) show ?thesis
  proof
    assume "N = 0 \<and> L = [[]]"
    with L(1) Bell_partitions[of N] show ?thesis
      by (simp add: Bell_0 contiguous_def n_clusters_def)
  next
    assume "0 < N \<and> enum_inv N L"
    with L(1) enum_inv_length[of N L] Bell_partitions[of N] show ?thesis
      by (auto simp: enum_inv_def)
  qed
qed

lemma enumerate_assignments_3:
  "enumerate_assignments 3 =
     Inr [[(0, 0), (1, 0), (2, 0)], [(0, 0), (1, 0), (2, 1)],
          [(0, 0), (1, 1), (2, 0)], [(0, 0), (1, 1), (2, 1)], [(0, 0), (1, 1), (2, 2)]]"
  by (simp add: enumerate_assignments_def augment_assignments_def py_getitem_def new_list_def upt_rec)

lemma Bell_3: "Bell 3 = 5"
  by (simp add: Bell_def numeral_3_eq_3)

theorem enumerate_assignments_Bell_witness:
  "enumerate_assignments 3 =
     Inr [[(0, 0), (1, 0), (2, 0)], [(0, 0), (1, 0), (2, 1)],
          [(0, 0), (1, 1), (2, 0)], [(0, 0), (1, 1), (2, 1)], [(0, 0), (1, 1), (2, 2)]] \<and>
   Bell 3 = 5 \<and> (0::nat) < 3 \<and>
   [(0, 0), (1, 1), (2, 0)] \<in> set [[(0::nat, 0::nat), (1, 0), (2, 0)], [(0, 0), (1, 0), (2, 1)],
          [(0, 0), (1, 1), (2, 0)], [(0, 0), (1, 1), (2, 1)], [(0, 0), (1, 1), (2, 2)]] \<and>
   map_of [(0::nat, 0::nat), (1, 1), (2, 0)] 0 = Some 0 \<and>
   contiguous [(0::nat, 0), (1, 1), (2, 0)]"
proof -
  from enumerate_assignments_Bell[of 3] obtain as where
    as: "enumerate_assignments 3 = Inr as" "length as = Bell 3"
      "\<forall>a\<in>set as. map fst a = [0..<3] \<and> (0 < (3::nat) \<longrightarrow> map_of a 0 = Some 0) \<and> contiguous a"
    by blast
  from as(1) have eq: "as = [[(0, 0), (1, 0), (2, 0)], [(0, 0), (1, 0), (2, 1)],
          [(0, 0), (1, 1), (2, 0)], [(0, 0), (1, 1), (2, 1)], [(0, 0), (1, 1), (2, 2)]]"
    by (simp add: enumerate_assignments_3)
  have "Bell 3 = 5" using as(2) eq by simp
  moreover have "contiguous [(0::nat, 0), (1, 1), (2, 0)]" using as(3) eq by simp
  ultimately show ?thesis using enumerate_assignments_3 by simp
qed

text \<open>
  For \<open>N = 0\<close> the single assignment returned is the empty one, which maps no
  context at all, so the claim's "every returned assignment maps context 0 to
  cluster 0" does not hold there.
\<close>

theorem enumerate_assignments_zero:
  "enumerate_assignments 0 = Inr [[]] \<and> map_of ([] :: nat assignment) 0 \<noteq> Some 0"
  by (simp add: enumerate_assignments_def)

section \<open>Properties of pruning\<close>

subsection \<open>The pruning loops\<close>

lemma np_max_Max: "xs \<noteq> [] \<Longrightarrow> np_max xs = Inr (Max (set xs))"
proof (cases xs)
  case Nil
  assume "xs \<noteq> []"
  with Nil show ?thesis by simp
next
  case (Cons a list)
  show ?thesis unfolding Cons by (simp only: np_max.simps Max.set_eq_fold)
qed

text \<open>Each pruning loop keeps the entries that pass the test, in order.\<close>

lemma Joint_prune_loop_filter:
  assumes "\<forall>(ii, b)\<in>set ibs. ii < length rs \<and> ii < length ms"
  shows "JointClustering_prune_loop mx lt rs ms ibs (nb, nr, nm) =
     Inr (nb @ map snd (filter (\<lambda>(ii, b). np_less (mx - b) lt) ibs),
          nr @ map (\<lambda>(ii, b). rs ! ii) (filter (\<lambda>(ii, b). np_less (mx - b) lt) ibs),
          nm @ map (\<lambda>(ii, b). ms ! ii) (filter (\<lambda>(ii, b). np_less (mx - b) lt) ibs))"
  using assms
proof (induction ibs arbitrary: nb nr nm)
  case Nil
  then show ?case by simp
next
  case (Cons p ibs)
  obtain ii b where p: "p = (ii, b)" by (cases p)
  with Cons.prems have "ii < length rs" "ii < length ms"
    and rest: "\<forall>(ii, b)\<in>set ibs. ii < length rs \<and> ii < length ms" by auto
  then show ?case using Cons.IH[OF rest] p by (simp add: py_getitem_def)
qed

lemma Ind_prune_loop_filter:
  assumes "\<forall>(ii, b)\<in>set ibs. ii < length hs"
  shows "IndependentClusterAgent_prune_loop mx lt hs ibs (nb, nh) =
     Inr (nb @ map snd (filter (\<lambda>(ii, b). np_less (mx - b) lt) ibs),
          nh @ map (\<lambda>(ii, b). hs ! ii) (filter (\<lambda>(ii, b). np_less (mx - b) lt) ibs))"
  using assms
proof (induction ibs arbitrary: nb nh)
  case Nil
  then show ?case by simp
next
  case (Cons p ibs)
  obtain ii b where p: "p = (ii, b)" by (cases p)
  with Cons.prems have "ii < length hs"
    and rest: "\<forall>(ii, b)\<in>set ibs. ii < length hs" by auto
  then show ?case using Cons.IH[OF rest] p by (simp add: py_getitem_def)
qed

lemma enumerate_as_map: "enumerate 0 bs = map (\<lambda>i. (i, bs ! i)) [0..<length bs]"
  by (rule nth_equalityI) (auto simp: nth_enumerate_eq)

lemma filter_enumerate:
  "filter (\<lambda>(ii, b). P b) (enumerate 0 bs)
     = map (\<lambda>i. (i, bs ! i)) (filter (\<lambda>i. P (bs ! i)) [0..<length bs])"
  by (simp add: enumerate_as_map filter_map comp_def)

lemma Joint_prune_eq:
  assumes "length rs = length bs" "length ms = length bs" "bs \<noteq> []"
  shows "JointClustering_prune_hypothesis_space thr
           \<lparr>reward_hypotheses = rs, mapping_hypotheses = ms, log_belief = bs\<rparr> =
         Inr \<lparr>reward_hypotheses =
                map ((!) rs) (filter (\<lambda>ii. np_less (Max (set bs) - bs ! ii) (np_log thr)) [0..<length bs]),
              mapping_hypotheses =
                map ((!) ms) (filter (\<lambda>ii. np_less (Max (set bs) - bs ! ii) (np_log thr)) [0..<length bs]),
              log_belief =
                map ((!) bs) (filter (\<lambda>ii. np_less (Max (set bs) - bs ! ii) (np_log thr)) [0..<length bs])\<rparr>"
proof -
  have idx: "\<forall>(ii, b)\<in>set (enumerate 0 bs). ii < length rs \<and> ii < length ms"
    using assms by (auto simp: in_set_enumerate_eq)
  show ?thesis
    using assms(3)
    by (simp add: JointClustering_prune_hypothesis_space_def np_max_Max
        Joint_prune_loop_filter[OF idx] filter_enumerate comp_def)
qed

lemma Ind_prune_loop_eq:
  assumes "length hs = length bs"
  shows "IndependentClusterAgent_prune_loop mx lt hs (enumerate 0 bs) ([], []) =
         Inr (map ((!) bs) (filter (\<lambda>ii. np_less (mx - bs ! ii) lt) [0..<length bs]),
              map ((!) hs) (filter (\<lambda>ii. np_less (mx - bs ! ii) lt) [0..<length bs]))"
proof -
  have idx: "\<forall>(ii, b)\<in>set (enumerate 0 bs). ii < length hs"
    using assms by (auto simp: in_set_enumerate_eq)
  show ?thesis
    by (simp add: Ind_prune_loop_filter[OF idx] filter_enumerate comp_def)
qed

lemma Ind_prune_eq:
  assumes "length rs = length br" "length ms = length bm" "br \<noteq> []" "bm \<noteq> []"
  shows "IndependentClusterAgent_prune_hypothesis_space thr
           \<lparr>reward_hypotheses = rs, mapping_hypotheses = ms,
            log_belief_rew = br, log_belief_map = bm\<rparr> =
         Inr \<lparr>reward_hypotheses =
                map ((!) rs) (filter (\<lambda>ii. np_less (Max (set br) - br ! ii) (np_log thr)) [0..<length br]),
              mapping_hypotheses =
                map ((!) ms) (filter (\<lambda>ii. np_less (Max (set bm) - bm ! ii) (np_log thr)) [0..<length bm]),
              log_belief_rew =
                map ((!) br) (filter (\<lambda>ii. np_less (Max (set br) - br ! ii) (np_log thr)) [0..<length br]),
              log_belief_map =
                map ((!) bm) (filter (\<lambda>ii. np_less (Max (set bm) - bm ! ii) (np_log thr)) [0..<length bm])\<rparr>"
  using assms(3,4)
  by (simp add: IndependentClusterAgent_prune_hypothesis_space_def np_max_Max Let_def
      Ind_prune_loop_eq[OF assms(1)] Ind_prune_loop_eq[OF assms(2)])


lemma zip_map_same: "zip (map f I) (map g I) = map (\<lambda>i. (f i, g i)) I"
  by (induction I) auto

lemma kept_nonempty:
  fixes xs :: "real list"
  assumes "1 < threshold" "xs \<noteq> []"
  shows "filter (\<lambda>ii. np_less (Max (set xs) - xs ! ii) (np_log threshold)) [0..<length xs] \<noteq> []"
proof -
  from assms(2) have "Max (set xs) \<in> set xs" by simp
  then obtain i where i: "i < length xs" "xs ! i = Max (set xs)" by (auto simp: in_set_conv_nth)
  have "0 < ln threshold" using assms(1) by simp
  then have "np_less (Max (set xs) - xs ! i) (np_log threshold)"
    using assms(1) i by (simp add: np_log_def)
  with i(1) have "i \<in> set (filter (\<lambda>ii. np_less (Max (set xs) - xs ! ii) (np_log threshold)) [0..<length xs])"
    by simp
  then show ?thesis by (metis empty_iff empty_set)
qed

lemma kept_max:
  fixes xs :: "real list"
  assumes "1 < threshold" "i < length xs" "xs ! i = Max (set xs)"
  shows "(xs ! i, g i) \<in> set (zip (map ((!) xs) (filter (\<lambda>ii. np_less (Max (set xs) - xs ! ii) (np_log threshold)) [0..<length xs]))
            (map g (filter (\<lambda>ii. np_less (Max (set xs) - xs ! ii) (np_log threshold)) [0..<length xs])))"
proof -
  have "0 < ln threshold" using assms(1) by simp
  then have "np_less (Max (set xs) - xs ! i) (np_log threshold)"
    using assms by (simp add: np_log_def)
  with assms(2) have "i \<in> set (filter (\<lambda>ii. np_less (Max (set xs) - xs ! ii) (np_log threshold)) [0..<length xs])"
    by simp
  then show ?thesis unfolding zip_map_same set_map by (rule rev_image_eqI) simp
qed


lemma Ind_prune_example:
  "IndependentClusterAgent_prune_hypothesis_space 2
     \<lparr>reward_hypotheses = [''r0'', ''r1''], mapping_hypotheses = [''m0'', ''m1'', ''m2''],
      log_belief_rew = [- 1, 0], log_belief_map = [0, 5, 5 - ln 2]\<rparr> =
     Inr \<lparr>reward_hypotheses = [''r1''], mapping_hypotheses = [''m1''],
          log_belief_rew = [0], log_belief_map = [5]\<rparr>"
proof -
  have l0: "0 < ln (2::real)" by simp
  have l: "ln (2::real) < 1" using ln_2_less_1 by simp
  have m: "max (5::real) (5 - ln 2) = 5" using l0 by simp
  show ?thesis using l0 l
    by (simp add: IndependentClusterAgent_prune_hypothesis_space_def enumerate_eq_zip upt_rec
        py_getitem_def np_log_def m Let_def)
qed

subsection \<open>What pruning removes\<close>




subsection \<open>Pruning keeps the best hypothesis\<close>

text \<open>
  Claim C3, as the code has it. For every threshold greater than 1 and every
  non-empty population whose log-beliefs are all finite numbers (belief list as long
  as the hypothesis lists), pruning returns a non-empty population, and every
  hypothesis whose log-belief is the maximum is still in it, with that log-belief.
  This holds for \<open>JointClustering\<close> and for both populations of
  \<open>IndependentClusterAgent\<close>.

  The log-beliefs of the statement are real numbers, so it says nothing about a
  population that holds \<open>-inf\<close>, \<open>inf\<close> or \<open>nan\<close>. The restriction is needed: when the
  maximum log-belief is \<open>-inf\<close>, \<open>max_belief - log_b\<close> is \<open>-inf - (-inf) = nan\<close>, the test
  \<open>nan < log_threshold\<close> is false for every hypothesis, and pruning leaves nothing
  whatever the threshold.
\<close>

theorem prune_hypothesis_space_keeps_max:
  assumes "1 < threshold"
    and "bs \<noteq> []" "length rs = length bs" "length ms = length bs"
    and "br \<noteq> []" "length rs' = length br" "bm \<noteq> []" "length ms' = length bm"
  shows "(\<exists>s'. JointClustering_prune_hypothesis_space threshold
             \<lparr>reward_hypotheses = rs, mapping_hypotheses = ms, log_belief = bs\<rparr> = Inr s' \<and>
           log_belief s' \<noteq> [] \<and> reward_hypotheses s' \<noteq> [] \<and> mapping_hypotheses s' \<noteq> [] \<and>
           (\<forall>i<length bs. bs ! i = Max (set bs) \<longrightarrow>
              (bs ! i, rs ! i, ms ! i) \<in>
                set (zip (log_belief s') (zip (reward_hypotheses s') (mapping_hypotheses s')))))
       \<and>
       (\<exists>s'. IndependentClusterAgent_prune_hypothesis_space threshold
             \<lparr>reward_hypotheses = rs', mapping_hypotheses = ms',
              log_belief_rew = br, log_belief_map = bm\<rparr> = Inr s' \<and>
           log_belief_rew s' \<noteq> [] \<and> reward_hypotheses s' \<noteq> [] \<and>
           log_belief_map s' \<noteq> [] \<and> mapping_hypotheses s' \<noteq> [] \<and>
           (\<forall>i<length br. br ! i = Max (set br) \<longrightarrow>
              (br ! i, rs' ! i) \<in> set (zip (log_belief_rew s') (reward_hypotheses s'))) \<and>
           (\<forall>i<length bm. bm ! i = Max (set bm) \<longrightarrow>
              (bm ! i, ms' ! i) \<in> set (zip (log_belief_map s') (mapping_hypotheses s'))))"
proof -
  let ?I = "\<lambda>xs. filter (\<lambda>ii. np_less (Max (set xs) - xs ! ii) (np_log threshold)) [0..<length xs]"
  let ?J = "\<lparr>reward_hypotheses = map ((!) rs) (?I bs), mapping_hypotheses = map ((!) ms) (?I bs),
             log_belief = map ((!) bs) (?I bs)\<rparr>"
  have J: "JointClustering_prune_hypothesis_space threshold
             \<lparr>reward_hypotheses = rs, mapping_hypotheses = ms, log_belief = bs\<rparr> = Inr ?J"
    by (rule Joint_prune_eq[OF assms(3,4,2)])
  have ne: "?I bs \<noteq> []" by (rule kept_nonempty[OF assms(1,2)])
  have mx: "\<forall>i<length bs. bs ! i = Max (set bs) \<longrightarrow>
      (bs ! i, rs ! i, ms ! i) \<in>
        set (zip (log_belief ?J) (zip (reward_hypotheses ?J) (mapping_hypotheses ?J)))"
    using kept_max[OF assms(1), of _ bs "\<lambda>i. (rs ! i, ms ! i)"]
    by (simp add: zip_map_same[of "(!) rs" _ "(!) ms"])
  have A: "\<exists>s'. JointClustering_prune_hypothesis_space threshold
             \<lparr>reward_hypotheses = rs, mapping_hypotheses = ms, log_belief = bs\<rparr> = Inr s' \<and>
           log_belief s' \<noteq> [] \<and> reward_hypotheses s' \<noteq> [] \<and> mapping_hypotheses s' \<noteq> [] \<and>
           (\<forall>i<length bs. bs ! i = Max (set bs) \<longrightarrow>
              (bs ! i, rs ! i, ms ! i) \<in>
                set (zip (log_belief s') (zip (reward_hypotheses s') (mapping_hypotheses s'))))"
  proof (intro exI conjI)
    show "JointClustering_prune_hypothesis_space threshold
             \<lparr>reward_hypotheses = rs, mapping_hypotheses = ms, log_belief = bs\<rparr> = Inr ?J"
      by (rule J)
    show "log_belief ?J \<noteq> []" "reward_hypotheses ?J \<noteq> []" "mapping_hypotheses ?J \<noteq> []"
      using ne by simp_all
    show "\<forall>i<length bs. bs ! i = Max (set bs) \<longrightarrow>
      (bs ! i, rs ! i, ms ! i) \<in>
        set (zip (log_belief ?J) (zip (reward_hypotheses ?J) (mapping_hypotheses ?J)))"
      by (rule mx)
  qed
  let ?K = "\<lparr>reward_hypotheses = map ((!) rs') (?I br), mapping_hypotheses = map ((!) ms') (?I bm),
             log_belief_rew = map ((!) br) (?I br), log_belief_map = map ((!) bm) (?I bm)\<rparr>"
  have K: "IndependentClusterAgent_prune_hypothesis_space threshold
             \<lparr>reward_hypotheses = rs', mapping_hypotheses = ms',
              log_belief_rew = br, log_belief_map = bm\<rparr> = Inr ?K"
    by (rule Ind_prune_eq[OF assms(6,8,5,7)])
  have ner: "?I br \<noteq> []" by (rule kept_nonempty[OF assms(1,5)])
  have nem: "?I bm \<noteq> []" by (rule kept_nonempty[OF assms(1,7)])
  have B: "\<exists>s'. IndependentClusterAgent_prune_hypothesis_space threshold
             \<lparr>reward_hypotheses = rs', mapping_hypotheses = ms',
              log_belief_rew = br, log_belief_map = bm\<rparr> = Inr s' \<and>
           log_belief_rew s' \<noteq> [] \<and> reward_hypotheses s' \<noteq> [] \<and>
           log_belief_map s' \<noteq> [] \<and> mapping_hypotheses s' \<noteq> [] \<and>
           (\<forall>i<length br. br ! i = Max (set br) \<longrightarrow>
              (br ! i, rs' ! i) \<in> set (zip (log_belief_rew s') (reward_hypotheses s'))) \<and>
           (\<forall>i<length bm. bm ! i = Max (set bm) \<longrightarrow>
              (bm ! i, ms' ! i) \<in> set (zip (log_belief_map s') (mapping_hypotheses s')))"
  proof (intro exI conjI)
    show "IndependentClusterAgent_prune_hypothesis_space threshold
             \<lparr>reward_hypotheses = rs', mapping_hypotheses = ms',
              log_belief_rew = br, log_belief_map = bm\<rparr> = Inr ?K"
      by (rule K)
    show "log_belief_rew ?K \<noteq> []" "reward_hypotheses ?K \<noteq> []"
      using ner by simp_all
    show "log_belief_map ?K \<noteq> []" "mapping_hypotheses ?K \<noteq> []"
      using nem by simp_all
    show "\<forall>i<length br. br ! i = Max (set br) \<longrightarrow>
              (br ! i, rs' ! i) \<in> set (zip (log_belief_rew ?K) (reward_hypotheses ?K))"
      using kept_max[OF assms(1), of _ br "(!) rs'"] by simp
    show "\<forall>i<length bm. bm ! i = Max (set bm) \<longrightarrow>
              (bm ! i, ms' ! i) \<in> set (zip (log_belief_map ?K) (mapping_hypotheses ?K))"
      using kept_max[OF assms(1), of _ bm "(!) ms'"] by simp
  qed
  from A B show ?thesis by (rule conjI)
qed

theorem prune_hypothesis_space_keeps_max_witness:
  "(1::real) < 2 \<and>
   (\<exists>s'. JointClustering_prune_hypothesis_space 2
      \<lparr>reward_hypotheses = [''r0'', ''r1''], mapping_hypotheses = [''m0'', ''m1''],
       log_belief = [0, - ln 2]\<rparr> = Inr s' \<and>
      log_belief s' \<noteq> [] \<and>
      (0, ''r0'', ''m0'') \<in>
         set (zip (log_belief s') (zip (reward_hypotheses s') (mapping_hypotheses s')))) \<and>
   (\<exists>s'. IndependentClusterAgent_prune_hypothesis_space 2
      \<lparr>reward_hypotheses = [''r0'', ''r1''], mapping_hypotheses = [''m0'', ''m1'', ''m2''],
       log_belief_rew = [- 1, 0], log_belief_map = [0, 5, 5 - ln 2]\<rparr> = Inr s' \<and>
      log_belief_rew s' \<noteq> [] \<and> log_belief_map s' \<noteq> [] \<and>
      (0, ''r1'') \<in> set (zip (log_belief_rew s') (reward_hypotheses s')) \<and>
      (5, ''m1'') \<in> set (zip (log_belief_map s') (mapping_hypotheses s')))"
proof -
  have h: "(1::real) < 2" by simp
  have l0: "0 < ln (2::real)" by simp
  have m1: "Max (set [0, - ln (2::real)]) = 0" using l0 by simp
  have m2: "Max (set [- 1, 0::real]) = 0" by simp
  have m3: "Max (set [0, 5, 5 - ln (2::real)]) = 5" using l0 by simp
  from prune_hypothesis_space_keeps_max[OF h, of "[0, - ln 2]" "[''r0'', ''r1'']" "[''m0'', ''m1'']"
        "[- 1, 0]" "[''r0'', ''r1'']" "[0, 5, 5 - ln 2]" "[''m0'', ''m1'', ''m2'']"]
  obtain s1 s2 where
    s1: "JointClustering_prune_hypothesis_space 2
      \<lparr>reward_hypotheses = [''r0'', ''r1''], mapping_hypotheses = [''m0'', ''m1''],
       log_belief = [0, - ln 2]\<rparr> = Inr s1" "log_belief s1 \<noteq> []"
      "\<forall>i<length [0, - ln (2::real)]. [0, - ln (2::real)] ! i = Max (set [0, - ln 2]) \<longrightarrow>
         ([0, - ln (2::real)] ! i, [''r0'', ''r1''] ! i, [''m0'', ''m1''] ! i) \<in>
           set (zip (log_belief s1) (zip (reward_hypotheses s1) (mapping_hypotheses s1)))"
    and s2: "IndependentClusterAgent_prune_hypothesis_space 2
      \<lparr>reward_hypotheses = [''r0'', ''r1''], mapping_hypotheses = [''m0'', ''m1'', ''m2''],
       log_belief_rew = [- 1, 0], log_belief_map = [0, 5, 5 - ln 2]\<rparr> = Inr s2"
      "log_belief_rew s2 \<noteq> []" "log_belief_map s2 \<noteq> []"
      "\<forall>i<length [- 1, 0::real]. [- 1, 0::real] ! i = Max (set [- 1, 0]) \<longrightarrow>
         ([- 1, 0::real] ! i, [''r0'', ''r1''] ! i) \<in> set (zip (log_belief_rew s2) (reward_hypotheses s2))"
      "\<forall>i<length [0, 5, 5 - ln (2::real)]. [0, 5, 5 - ln (2::real)] ! i = Max (set [0, 5, 5 - ln 2]) \<longrightarrow>
         ([0, 5, 5 - ln (2::real)] ! i, [''m0'', ''m1'', ''m2''] ! i) \<in> set (zip (log_belief_map s2) (mapping_hypotheses s2))"
    by auto
  from s1(3)[rule_format, of 0] m1
  have a: "(0, ''r0'', ''m0'') \<in> set (zip (log_belief s1) (zip (reward_hypotheses s1) (mapping_hypotheses s1)))"
    by simp
  from s2(4)[rule_format, of 1] m2
  have b: "(0, ''r1'') \<in> set (zip (log_belief_rew s2) (reward_hypotheses s2))" by simp
  from s2(5)[rule_format, of 1] m3
  have c: "(5, ''m1'') \<in> set (zip (log_belief_map s2) (mapping_hypotheses s2))" by simp
  show ?thesis using h s1(1,2) a s2(1,2,3) b c by blast
qed

text \<open>
  At threshold 1 the claim fails: \<open>log 1 = 0\<close> and the test \<open>max_belief - log_b < 0\<close> is
  false for the best hypothesis itself. Pruning the population a \<open>JointClustering\<close>
  agent is constructed with (one pair, log-belief 1) leaves nothing.
\<close>

theorem prune_hypothesis_space_threshold_one:
  "JointClustering_prune_hypothesis_space 1
     \<lparr>reward_hypotheses = [''r0''], mapping_hypotheses = [''m0''], log_belief = [1]\<rparr> =
     Inr \<lparr>reward_hypotheses = [], mapping_hypotheses = [], log_belief = []\<rparr>"
  by (simp add: JointClustering_prune_hypothesis_space_def enumerate_eq_zip np_log_def)

section \<open>Properties of the agents\<close>

subsection \<open>The belief that \<open>JointClustering.update\<close> stores\<close>

lemma store_loop_enumerate:
  "n + length hs \<le> length arr \<Longrightarrow>
   store_loop f (enumerate n hs) arr = Inr (take n arr @ map f hs @ drop (n + length hs) arr)"
proof (induction hs arbitrary: n arr)
  case Nil
  then show ?case by simp
next
  case (Cons h hs)
  have "take (Suc n) (arr[n := f h]) = take n arr @ [f h]"
    using Cons.prems by (simp add: take_Suc_conv_app_nth)
  then show ?case using Cons.prems Cons.IH[of "Suc n" "arr[n := f h]"]
    by (simp add: np_setitem_def)
qed

lemma add_loop_enumerate:
  "n + length hs \<le> length arr \<Longrightarrow>
   add_loop f (enumerate n hs) arr =
     Inr (take n arr @ map2 (\<lambda>a h. a + f h) (take (length hs) (drop n arr)) hs
          @ drop (n + length hs) arr)"
proof (induction hs arbitrary: n arr)
  case Nil
  then show ?case by simp
next
  case (Cons h hs)
  have t: "take (Suc n) (arr[n := arr ! n + f h]) = take n arr @ [arr ! n + f h]"
    using Cons.prems by (simp add: take_Suc_conv_app_nth)
  have d: "drop n arr = arr ! n # drop (Suc n) arr"
    using Cons.prems by (simp add: Cons_nth_drop_Suc)
  show ?case using Cons.prems Cons.IH[of "Suc n" "arr[n := arr ! n + f h]"]
    by (simp add: np_setitem_def py_getitem_def t d)
qed

lemma JointClustering_update_eq:
  assumes "length rs = length ms" and "state_location_key loc_prime = Some sp"
  shows "JointClustering_update r_ops m_ops state_location_key (st, a, aa, r, (loc_prime, c))
           \<lparr>reward_hypotheses = rs, mapping_hypotheses = ms, log_belief = bs\<rparr> =
         Inr \<lparr>reward_hypotheses = map (hypothesis_update r_ops (c, sp, r)) rs,
              mapping_hypotheses = map (hypothesis_update m_ops (c, a, aa)) ms,
              log_belief =
                map2 (\<lambda>h_r h_m. get_log_likelihood r_ops h_r + get_log_likelihood m_ops h_m)
                  (map (hypothesis_update r_ops (c, sp, r)) rs)
                  (map (hypothesis_update m_ops (c, a, aa)) ms)\<rparr>"
  using assms
  by (auto simp: JointClustering_update_def Let_def store_loop_enumerate add_loop_enumerate
      zip_map_map map_zip_map)

lemma JointClustering_children_log_belief:
  assumes "JointClustering_children r_ops m_ops context h_r h_m new_assignments (nr, nm, nb)
             = Inr (nr', nm', nb')"
    and "length nr = length nm"
    and "nb = map2 (\<lambda>h_r h_m. get_log_posterior r_ops h_r + get_log_likelihood m_ops h_m) nr nm"
  shows "length nr' = length nm' \<and>
         nb' = map2 (\<lambda>h_r h_m. get_log_posterior r_ops h_r + get_log_likelihood m_ops h_m) nr' nm'"
  using assms
proof (induction new_assignments arbitrary: nr nm nb)
  case Nil
  then show ?case by auto
next
  case (Cons assignment rest)
  from Cons.prems(1) obtain k where k: "map_of assignment context = Some k"
    by (auto split: option.splits)
  let ?r = "add_new_context_assignment r_ops context k (deep_copy h_r)"
  let ?m = "add_new_context_assignment m_ops context k (deep_copy h_m)"
  have step: "JointClustering_children r_ops m_ops context h_r h_m rest
      (nr @ [?r], nm @ [?m], nb @ [get_log_posterior r_ops ?r + get_log_likelihood m_ops ?m])
      = Inr (nr', nm', nb')"
    using Cons.prems(1) k by (simp add: Let_def)
  show ?case
    by (rule Cons.IH[OF step]) (use Cons.prems(2,3) in simp_all)
qed

lemma JointClustering_augment_loop_log_belief:
  assumes "JointClustering_augment_loop r_ops m_ops context pairs (nr, nm, nb) = Inr (nr', nm', nb')"
    and "length nr = length nm"
    and "nb = map2 (\<lambda>h_r h_m. get_log_posterior r_ops h_r + get_log_likelihood m_ops h_m) nr nm"
  shows "length nr' = length nm' \<and>
         nb' = map2 (\<lambda>h_r h_m. get_log_posterior r_ops h_r + get_log_likelihood m_ops h_m) nr' nm'"
  using assms
proof (induction pairs arbitrary: nr nm nb)
  case Nil
  then show ?case by auto
next
  case (Cons p rest)
  obtain h_r h_m where p: "p = (h_r, h_m)" by (cases p)
  from Cons.prems(1) p obtain new_assignments acc where
    na: "augment_assignments [get_assignments h_r] context = Inr new_assignments"
    and ch: "JointClustering_children r_ops m_ops context h_r h_m new_assignments (nr, nm, nb) = Inr acc"
    and lp: "JointClustering_augment_loop r_ops m_ops context rest acc = Inr (nr', nm', nb')"
    by (auto split: sum.splits)
  obtain ar am ab where acc: "acc = (ar, am, ab)" by (cases acc)
  from JointClustering_children_log_belief[OF ch[unfolded acc] Cons.prems(2,3)]
  have "length ar = length am"
    "ab = map2 (\<lambda>h_r h_m. get_log_posterior r_ops h_r + get_log_likelihood m_ops h_m) ar am"
    by simp_all
  with Cons.IH[OF lp[unfolded acc]] show ?case by simp
qed

lemma JointClustering_augment_assignments_log_belief:
  assumes "JointClustering_augment_assignments r_ops m_ops context self = Inr self'"
  shows "log_belief self' =
           map2 (\<lambda>h_r h_m. get_log_posterior r_ops h_r + get_log_likelihood m_ops h_m)
             (reward_hypotheses self') (mapping_hypotheses self')"
proof -
  from assms obtain nr nm nb where
    lp: "JointClustering_augment_loop r_ops m_ops context
           (zip (reward_hypotheses self) (mapping_hypotheses self)) ([], [], []) = Inr (nr, nm, nb)"
    and s: "self' = self\<lparr>reward_hypotheses := nr, mapping_hypotheses := nm, log_belief := nb\<rparr>"
    by (auto simp: JointClustering_augment_assignments_def split: sum.splits)
  from JointClustering_augment_loop_log_belief[OF lp] s show ?thesis by simp
qed

text \<open>
  Claim C1 asks that after \<open>update\<close> the stored log-belief of each pair is the reward
  hypothesis's log-posterior plus the mapping hypothesis's log-likelihood, the
  combination that \<open>augment_assignments\<close> stores for new children
  (\<open>JointClustering_augment_assignments_log_belief\<close> above). The code does not do
  that. Its second loop assigns (\<open>=\<close>) the reward log-likelihood over the prior that
  the first loop stored, so for populations of equal length and a known location
  \<open>update\<close> stores, for every pair, the reward log-likelihood plus the mapping
  log-likelihood: the log-prior is lost.
\<close>

theorem JointClustering_update_log_belief:
  assumes "length rs = length ms" and "state_location_key loc_prime = Some sp"
  shows "\<exists>self'. JointClustering_update r_ops m_ops state_location_key
                    (st, a, aa, r, (loc_prime, c))
                    \<lparr>reward_hypotheses = rs, mapping_hypotheses = ms, log_belief = bs\<rparr> = Inr self' \<and>
           log_belief self' =
             map2 (\<lambda>h_r h_m. get_log_likelihood r_ops h_r + get_log_likelihood m_ops h_m)
               (reward_hypotheses self') (mapping_hypotheses self')"
  using JointClustering_update_eq[where state_location_key = state_location_key
      and loc_prime = loc_prime, OF assms]
  by simp

text \<open>
  One pair whose hypotheses have log-prior \<open>-1\<close>; after the count update the reward
  log-likelihood is \<open>-2\<close> and the mapping log-likelihood \<open>-3\<close>. \<open>update\<close> stores \<open>-5\<close>;
  log-posterior plus log-likelihood is \<open>-6\<close>.
\<close>

theorem JointClustering_update_log_belief_witness:
  "length [\<lparr>assignments = [(0, 0), (1, 0)], statistics = (- 1 :: real, - 1 :: real)\<rparr>] =
     length [\<lparr>assignments = [(0, 0), (1, 0)], statistics = (- 1 :: real, - 2 :: real)\<rparr>] \<and>
   [(0::nat, 0::nat) \<mapsto> 0::nat] (0, 0) = Some 0 \<and>
   JointClustering_update
     \<lparr>get_log_prior = \<lambda>h. fst (statistics h), get_log_likelihood = \<lambda>h. snd (statistics h),
      count_update = \<lambda>obs h. (fst (statistics h), snd (statistics h) - 1),
      extend_statistics = \<lambda>c k h. statistics h, new_statistics = \<lambda>a. (0, 0)\<rparr>
     \<lparr>get_log_prior = \<lambda>h. fst (statistics h), get_log_likelihood = \<lambda>h. snd (statistics h),
      count_update = \<lambda>obs h. (fst (statistics h), snd (statistics h) - 1),
      extend_statistics = \<lambda>c k h. statistics h, new_statistics = \<lambda>a. (0, 0)\<rparr>
     [(0, 0) \<mapsto> 0] (((0, 0), 1), 0, 0, 0, ((0, 0), 1))
     \<lparr>reward_hypotheses = [\<lparr>assignments = [(0, 0), (1, 0)], statistics = (- 1, - 1)\<rparr>],
      mapping_hypotheses = [\<lparr>assignments = [(0, 0), (1, 0)], statistics = (- 1, - 2)\<rparr>],
      log_belief = [- 4]\<rparr> =
   Inr \<lparr>reward_hypotheses = [\<lparr>assignments = [(0, 0), (1, 0)], statistics = (- 1, - 2)\<rparr>],
        mapping_hypotheses = [\<lparr>assignments = [(0, 0), (1, 0)], statistics = (- 1, - 3)\<rparr>],
        log_belief = [- 5]\<rparr> \<and>
   get_log_posterior
     \<lparr>get_log_prior = \<lambda>h. fst (statistics h), get_log_likelihood = \<lambda>h. snd (statistics h),
      count_update = \<lambda>obs h. (fst (statistics h), snd (statistics h) - 1),
      extend_statistics = \<lambda>c k h. statistics h, new_statistics = \<lambda>a. (0, 0)\<rparr>
     \<lparr>assignments = [(0::nat, 0::nat), (1, 0)], statistics = (- 1 :: real, - 2 :: real)\<rparr> +
   get_log_likelihood
     \<lparr>get_log_prior = \<lambda>h. fst (statistics h), get_log_likelihood = \<lambda>h. snd (statistics h),
      count_update = \<lambda>obs h. (fst (statistics h), snd (statistics h) - 1),
      extend_statistics = \<lambda>c k h. statistics h, new_statistics = \<lambda>a. (0, 0)\<rparr>
     \<lparr>assignments = [(0::nat, 0::nat), (1, 0)], statistics = (- 1 :: real, - 3 :: real)\<rparr> = - 6"
  using JointClustering_update_log_belief[of
      "[\<lparr>assignments = [(0, 0), (1, 0)], statistics = (- 1 :: real, - 1 :: real)\<rparr>]"
      "[\<lparr>assignments = [(0, 0), (1, 0)], statistics = (- 1 :: real, - 2 :: real)\<rparr>]"
      "[(0::nat, 0::nat) \<mapsto> 0::nat]" "(0, 0)" 0]
  by (simp add: JointClustering_update_def hypothesis_update_def get_log_posterior_def
      enumerate_eq_zip np_setitem_def py_getitem_def)

subsection \<open>The populations \<open>MapClusteringAgent\<close> is constructed with\<close>

text \<open>
  Claim C2, as the code has it. The construction raises nothing. The mapping
  population gets one hypothesis per assignment that \<open>enumerate_assignments(n_ctx)\<close>
  returns, in that order, \<open>Bell n_ctx\<close> of them. The reward population gets exactly
  one hypothesis, whose assignment puts every context \<open>ii\<close> in its own cluster \<open>ii\<close>.
\<close>

theorem MapClusteringAgent_init_populations:
  "\<exists>as self. enumerate_assignments N = Inr as \<and> length as = Bell N \<and>
     MapClusteringAgent_init r_ops m_ops N = Inr self \<and>
     map assignments (mapping_hypotheses self) = as \<and>
     map assignments (reward_hypotheses self) = [map (\<lambda>ii. (ii, ii)) [0..<N]]"
proof -
  from enumerate_assignments_length[of N] obtain as where
    as: "enumerate_assignments N = Inr as" "length as = Bell N" by blast
  have "map (assignments \<circ> new_hypothesis m_ops) as = as"
    by (simp add: new_hypothesis_def comp_def)
  with as show ?thesis
    by (simp add: MapClusteringAgent_init_def Let_def new_hypothesis_def)
qed

lemma enumerate_assignments_2:
  "enumerate_assignments 2 = Inr [[(0, 0), (1, 0)], [(0, 0), (1, 1)]]"
  by (simp add: enumerate_assignments_def augment_assignments_def py_getitem_def new_list_def upt_rec)

text \<open>
  With two contexts there are two partitions, and the reward population holds one
  hypothesis, not two.
\<close>

theorem MapClusteringAgent_init_one_reward_hypothesis:
  "enumerate_assignments 2 = Inr [[(0, 0), (1, 0)], [(0, 0), (1, 1)]] \<and>
   MapClusteringAgent_init
     \<lparr>get_log_prior = \<lambda>h. 0, get_log_likelihood = \<lambda>h. 0, count_update = \<lambda>obs h. (),
      extend_statistics = \<lambda>c k h. (), new_statistics = \<lambda>a. ()\<rparr>
     \<lparr>get_log_prior = \<lambda>h. 0, get_log_likelihood = \<lambda>h. 0, count_update = \<lambda>obs h. (),
      extend_statistics = \<lambda>c k h. (), new_statistics = \<lambda>a. ()\<rparr> 2 =
   Inr \<lparr>reward_hypotheses = [\<lparr>assignments = [(0, 0), (1, 1)], statistics = ()\<rparr>],
        mapping_hypotheses = [\<lparr>assignments = [(0, 0), (1, 0)], statistics = ()\<rparr>,
                              \<lparr>assignments = [(0, 0), (1, 1)], statistics = ()\<rparr>],
        belief_rew = [1], belief_map = [1 / 2, 1 / 2]\<rparr>"
  unfolding MapClusteringAgent_init_def enumerate_assignments_2
  by (simp add: new_hypothesis_def upt_rec numeral_2_eq_2)

subsection \<open>The population of \<open>FlatControlAgent\<close>\<close>

lemma store_loop_length:
  "store_loop f ihs arr = Inr arr' \<Longrightarrow> length arr' = length arr"
proof (induction ihs arbitrary: arr)
  case Nil
  then show ?case by simp
next
  case (Cons p ihs)
  obtain ii h where p: "p = (ii, h)" by (cases p)
  from Cons.prems p obtain arr1 where "np_setitem arr ii (f h) = Inr arr1"
    "store_loop f ihs arr1 = Inr arr'"
    by (auto split: sum.splits)
  with Cons.IH[of arr1] show ?case by (auto simp: np_setitem_def split: if_splits)
qed

lemma FlatControlAgent_update_size:
  assumes "population_size_one self"
  shows "case FlatControlAgent_update r_ops m_ops state_location_key
                (st, a, aa, r, (loc_prime, c)) self of
           Inr self' \<Rightarrow> population_size_one self' \<and> state_location_key loc_prime \<noteq> None
         | Inl e \<Rightarrow> e = KeyError \<and> state_location_key loc_prime = None"
proof (cases "state_location_key loc_prime")
  case None
  then show ?thesis by (simp add: FlatControlAgent_update_def Let_def)
next
  case (Some sp)
  from assms obtain ts b where s: "task_sets self = [ts]" "log_belief_flat self = [b]"
    by (auto simp: population_size_one_def length_Suc_conv)
  obtain h_r h_m where ts: "ts = (h_r, h_m)" by (cases ts)
  show ?thesis using Some s ts
    by (simp add: FlatControlAgent_update_def Let_def enumerate_eq_zip np_setitem_def
        population_size_one_def)
qed

lemma update_own_clusters:
  assumes "own_clusters a"
  shows "own_clusters (AList.update c c a)"
    and "map_of (AList.update c c a) c' = Some c \<longleftrightarrow> c' = c"
proof -
  have set_upd: "set (AList.update c c a) \<subseteq> insert (c, c) (set a)"
    by (induction a) auto
  with assms show "own_clusters (AList.update c c a)"
    by (auto simp: own_clusters_def)
  show "map_of (AList.update c c a) c' = Some c \<longleftrightarrow> c' = c"
  proof (cases "c' = c")
    case True
    then show ?thesis by (simp add: update_conv')
  next
    case False
    have "map_of a c' \<noteq> Some c"
    proof
      assume "map_of a c' = Some c"
      then have "(c', c) \<in> set a" by (rule map_of_SomeD)
      with assms have "c = c'" by (auto simp: own_clusters_def)
      with False show False by simp
    qed
    with False show ?thesis by (simp add: update_conv')
  qed
qed

text \<open>
  Claim C9. The population of the flat agent has exactly one hypothesis pair (and one
  belief) after construction, and a population of size one stays of size one under
  \<open>prune_hypothesis_space\<close> (inherited, it does nothing), under \<open>update\<close> (which
  returns unless the location is unknown to \<open>state_location_key\<close>) and under
  \<open>augment_assignments(c)\<close>. The latter returns the same single pair with \<open>c\<close> mapped
  to cluster \<open>c\<close> in both assignments, and nothing else changed in them; when every
  context of the assignment was in the cluster of its own number, this is still so
  and \<open>c\<close> is the only context in cluster \<open>c\<close>.
\<close>

theorem FlatControlAgent_population:
  "population_size_one (FlatControlAgent_init h_r0 h_m0) \<and>
   (population_size_one self \<longrightarrow>
      population_size_one (MultiStepAgent_prune_hypothesis_space threshold self) \<and>
      (case FlatControlAgent_update r_ops m_ops state_location_key
              (st, a, aa, r, (loc_prime, c')) self of
         Inr self' \<Rightarrow> population_size_one self' \<and> state_location_key loc_prime \<noteq> None
       | Inl e \<Rightarrow> e = KeyError \<and> state_location_key loc_prime = None) \<and>
      (\<exists>h_r h_m h_r' h_m'.
          task_sets self = [(h_r, h_m)] \<and>
          FlatControlAgent_augment_assignments r_ops m_ops c self =
            Inr \<lparr>task_sets = [(h_r', h_m')], log_belief_flat = [1]\<rparr> \<and>
          assignments h_r' = AList.update c c (assignments h_r) \<and>
          assignments h_m' = AList.update c c (assignments h_m) \<and>
          map_of (assignments h_r') c = Some c \<and> map_of (assignments h_m') c = Some c \<and>
          (own_clusters (assignments h_r) \<longrightarrow>
             own_clusters (assignments h_r') \<and>
             (\<forall>k. map_of (assignments h_r') k = Some c \<longleftrightarrow> k = c)) \<and>
          (own_clusters (assignments h_m) \<longrightarrow>
             own_clusters (assignments h_m') \<and>
             (\<forall>k. map_of (assignments h_m') k = Some c \<longleftrightarrow> k = c))))"
proof (intro conjI impI)
  show "population_size_one (FlatControlAgent_init h_r0 h_m0)"
    by (simp add: population_size_one_def FlatControlAgent_init_def)
next
  assume "population_size_one self"
  then show "population_size_one (MultiStepAgent_prune_hypothesis_space threshold self)"
    by (simp add: MultiStepAgent_prune_hypothesis_space_def)
next
  assume "population_size_one self"
  then show "case FlatControlAgent_update r_ops m_ops state_location_key
              (st, a, aa, r, (loc_prime, c')) self of
         Inr self' \<Rightarrow> population_size_one self' \<and> state_location_key loc_prime \<noteq> None
       | Inl e \<Rightarrow> e = KeyError \<and> state_location_key loc_prime = None"
    by (rule FlatControlAgent_update_size)
next
  assume "population_size_one self"
  then obtain ts b where s: "task_sets self = [ts]" "log_belief_flat self = [b]"
    by (auto simp: population_size_one_def length_Suc_conv)
  obtain h_r h_m where ts: "ts = (h_r, h_m)" by (cases ts)
  let ?r = "add_new_context_assignment r_ops c c h_r"
  let ?m = "add_new_context_assignment m_ops c c h_m"
  have aug: "FlatControlAgent_augment_assignments r_ops m_ops c self =
            Inr \<lparr>task_sets = [(?r, ?m)], log_belief_flat = [1]\<rparr>"
    using s ts by (simp add: FlatControlAgent_augment_assignments_def py_getitem_def Let_def)
  have ar: "assignments ?r = AList.update c c (assignments h_r)"
    and am: "assignments ?m = AList.update c c (assignments h_m)"
    by (simp_all add: add_new_context_assignment_def)
  have "task_sets self = [(h_r, h_m)] \<and>
          FlatControlAgent_augment_assignments r_ops m_ops c self =
            Inr \<lparr>task_sets = [(?r, ?m)], log_belief_flat = [1]\<rparr> \<and>
          assignments ?r = AList.update c c (assignments h_r) \<and>
          assignments ?m = AList.update c c (assignments h_m) \<and>
          map_of (assignments ?r) c = Some c \<and> map_of (assignments ?m) c = Some c \<and>
          (own_clusters (assignments h_r) \<longrightarrow>
             own_clusters (assignments ?r) \<and>
             (\<forall>k. map_of (assignments ?r) k = Some c \<longleftrightarrow> k = c)) \<and>
          (own_clusters (assignments h_m) \<longrightarrow>
             own_clusters (assignments ?m) \<and>
             (\<forall>k. map_of (assignments ?m) k = Some c \<longleftrightarrow> k = c))"
    unfolding ar am using s ts aug update_own_clusters[of "assignments h_r" c]
      update_own_clusters[of "assignments h_m" c]
    by (simp add: update_conv')
  then show "\<exists>h_r h_m h_r' h_m'.
          task_sets self = [(h_r, h_m)] \<and>
          FlatControlAgent_augment_assignments r_ops m_ops c self =
            Inr \<lparr>task_sets = [(h_r', h_m')], log_belief_flat = [1]\<rparr> \<and>
          assignments h_r' = AList.update c c (assignments h_r) \<and>
          assignments h_m' = AList.update c c (assignments h_m) \<and>
          map_of (assignments h_r') c = Some c \<and> map_of (assignments h_m') c = Some c \<and>
          (own_clusters (assignments h_r) \<longrightarrow>
             own_clusters (assignments h_r') \<and>
             (\<forall>k. map_of (assignments h_r') k = Some c \<longleftrightarrow> k = c)) \<and>
          (own_clusters (assignments h_m) \<longrightarrow>
             own_clusters (assignments h_m') \<and>
             (\<forall>k. map_of (assignments h_m') k = Some c \<longleftrightarrow> k = c))"
    by blast
qed

theorem FlatControlAgent_population_witness:
  "population_size_one
     \<lparr>task_sets = [(\<lparr>assignments = [(0, 0)], statistics = ()\<rparr>,
                    \<lparr>assignments = [(0, 0)], statistics = ()\<rparr>)],
      log_belief_flat = [1]\<rparr> \<and>
   own_clusters [(0, 0)] \<and>
   FlatControlAgent_augment_assignments
     \<lparr>get_log_prior = \<lambda>h. 0, get_log_likelihood = \<lambda>h. 0, count_update = \<lambda>obs h. (),
      extend_statistics = \<lambda>c k h. (), new_statistics = \<lambda>a. ()\<rparr>
     \<lparr>get_log_prior = \<lambda>h. 0, get_log_likelihood = \<lambda>h. 0, count_update = \<lambda>obs h. (),
      extend_statistics = \<lambda>c k h. (), new_statistics = \<lambda>a. ()\<rparr>
     1
     \<lparr>task_sets = [(\<lparr>assignments = [(0, 0)], statistics = ()\<rparr>,
                    \<lparr>assignments = [(0, 0)], statistics = ()\<rparr>)],
      log_belief_flat = [1]\<rparr> =
   Inr \<lparr>task_sets = [(\<lparr>assignments = [(0, 0), (1, 1)], statistics = ()\<rparr>,
                        \<lparr>assignments = [(0, 0), (1, 1)], statistics = ()\<rparr>)],
        log_belief_flat = [1]\<rparr> \<and>
   own_clusters [(0, 0), (1, 1)] \<and>
   FlatControlAgent_update
     \<lparr>get_log_prior = \<lambda>h. 0, get_log_likelihood = \<lambda>h. 0, count_update = \<lambda>obs h. (),
      extend_statistics = \<lambda>c k h. (), new_statistics = \<lambda>a. ()\<rparr>
     \<lparr>get_log_prior = \<lambda>h. 0, get_log_likelihood = \<lambda>h. 0, count_update = \<lambda>obs h. (),
      extend_statistics = \<lambda>c k h. (), new_statistics = \<lambda>a. ()\<rparr>
     [(0::nat, 0::nat) \<mapsto> 0] (((0, 0), 0), 0, 0, 0, ((0, 0), 0))
     \<lparr>task_sets = [(\<lparr>assignments = [(0, 0)], statistics = ()\<rparr>,
                    \<lparr>assignments = [(0, 0)], statistics = ()\<rparr>)],
      log_belief_flat = [1]\<rparr> =
   Inr \<lparr>task_sets = [(\<lparr>assignments = [(0, 0)], statistics = ()\<rparr>,
                        \<lparr>assignments = [(0, 0)], statistics = ()\<rparr>)],
        log_belief_flat = [0]\<rparr>"
  using FlatControlAgent_population[where
      self = "\<lparr>task_sets = [(\<lparr>assignments = [(0, 0)], statistics = ()\<rparr>,
                    \<lparr>assignments = [(0, 0)], statistics = ()\<rparr>)],
        log_belief_flat = [1]\<rparr>"
      and r_ops = "\<lparr>get_log_prior = \<lambda>h. 0, get_log_likelihood = \<lambda>h. 0, count_update = \<lambda>obs h. (),
        extend_statistics = \<lambda>c k h. (), new_statistics = \<lambda>a. ()\<rparr>"
      and m_ops = "\<lparr>get_log_prior = \<lambda>h. 0, get_log_likelihood = \<lambda>h. 0, count_update = \<lambda>obs h. (),
        extend_statistics = \<lambda>c k h. (), new_statistics = \<lambda>a. ()\<rparr>"
      and state_location_key = "[(0::nat, 0::nat) \<mapsto> 0]" and loc_prime = "(0, 0)"
      and st = "((0, 0), 0)" and a = 0 and aa = 0 and r = 0 and c' = 0 and c = 1]
  by (simp add: population_size_one_def own_clusters_def FlatControlAgent_augment_assignments_def
      FlatControlAgent_update_def py_getitem_def add_new_context_assignment_def
      hypothesis_update_def enumerate_eq_zip np_setitem_def)

section \<open>Properties of the orchestrator\<close>

lemma monitor_run_append:
  "monitor_run thr m (xs @ ys) =
     (case monitor_run thr m xs of None \<Rightarrow> None | Some m' \<Rightarrow> monitor_run thr m' ys)"
  by (induction xs arbitrary: m) (auto split: option.splits)

lemma monitor_run_snoc:
  "monitor_run thr m xs = Some m' \<Longrightarrow> monitor_run thr m (xs @ [e]) = monitor_step thr m' e"
  by (simp add: monitor_run_append split: option.splits)

text \<open>
  What an allowed trace implies: a context is pruned for and augmented at most once.
\<close>

lemma monitor_counts:
  assumes "monitor_run thr (ph, ts, cs) es = Some m'"
    and "\<forall>c0. ph = Entering c0 \<or> ph = Pruned c0 \<longrightarrow> c0 \<in> set cs"
  shows "count_list es (AugmentAssignments c)
           \<le> (if ph = Entering c \<or> ph = Pruned c \<or> c \<notin> set cs then 1 else 0)"
    and "count_list es (PruneHypothesisSpace c thr')
           \<le> (if ph = Entering c \<or> c \<notin> set cs then 1 else 0)"
  using assms
proof (induction es arbitrary: ph ts cs)
  case Nil
  {
    case 1
    show ?case by simp
  next
    case 2
    show ?case by simp
  }
next
  case (Cons e es)
  {
    case 1
    from "1.prems"(1) obtain ph1 ts1 cs1 where
      st: "monitor_step thr (ph, ts, cs) e = Some (ph1, ts1, cs1)"
      and run: "monitor_run thr (ph1, ts1, cs1) es = Some m'"
      by (auto split: option.splits)
    have wf1: "\<forall>c0. ph1 = Entering c0 \<or> ph1 = Pruned c0 \<longrightarrow> c0 \<in> set cs1"
      using st "1.prems"(2) by (cases ph; cases e; auto split: if_splits)
    from Cons.IH(1)[OF run wf1]
    have ih: "count_list es (AugmentAssignments c)
           \<le> (if ph1 = Entering c \<or> ph1 = Pruned c \<or> c \<notin> set cs1 then 1 else 0)" .
    show ?case using st ih "1.prems"(2)
      by (cases ph; cases e; auto split: if_splits)
  next
    case 2
    from "2.prems"(1) obtain ph1 ts1 cs1 where
      st: "monitor_step thr (ph, ts, cs) e = Some (ph1, ts1, cs1)"
      and run: "monitor_run thr (ph1, ts1, cs1) es = Some m'"
      by (auto split: option.splits)
    have wf1: "\<forall>c0. ph1 = Entering c0 \<or> ph1 = Pruned c0 \<longrightarrow> c0 \<in> set cs1"
      using st "2.prems"(2) by (cases ph; cases e; auto split: if_splits)
    from Cons.IH(2)[OF run wf1]
    have ih: "count_list es (PruneHypothesisSpace c thr')
           \<le> (if ph1 = Entering c \<or> c \<notin> set cs1 then 1 else 0)" .
    show ?case using st ih "2.prems"(2)
      by (cases ph; cases e; auto split: if_splits)
  }
qed

lemma allowed_counts:
  assumes "allowed thr tr"
  shows "count_list tr (AugmentAssignments c) \<le> 1"
    and "count_list tr (PruneHypothesisSpace c thr') \<le> 1"
proof -
  from assms obtain m' where r: "monitor_run thr (Idle, [], []) tr = Some m'"
    by (auto simp: allowed_def)
  from monitor_counts(1)[OF r, of c] show "count_list tr (AugmentAssignments c) \<le> 1" by simp
  from monitor_counts(2)[OF r, of c thr'] show "count_list tr (PruneHypothesisSpace c thr') \<le> 1"
    by simp
qed

text \<open>The loop body keeps the monitor in step with the two counter arrays.\<close>

lemma first_step_of_trial_monitor:
  assumes run: "monitor_run thr I (trace s) =
                  Some (if c \<notin> set cs then Entering c else Ready c, ts, List.insert c cs)"
    and cnt: "\<forall>k<length (times_seen_ctx s). (times_seen_ctx s ! k = 0) = (k \<notin> set cs)"
    and res: "first_step_of_trial ag thr c s = (r, s')"
  shows "monitor_run thr I (trace s') \<noteq> None"
    and "r = None \<Longrightarrow>
           monitor_run thr I (trace s') = Some (Ready c, ts, List.insert c cs) \<and>
           (\<forall>k<length (times_seen_ctx s').
               (times_seen_ctx s' ! k = 0) = (k \<notin> set (List.insert c cs))) \<and>
           step_counter s' = step_counter s"
proof -
  show "monitor_run thr I (trace s') \<noteq> None"
  proof (cases "c < length (times_seen_ctx s)")
    case False
    with res run show ?thesis by (auto simp: first_step_of_trial_def)
  next
    case True
    with cnt have z: "(times_seen_ctx s ! c = 0) = (c \<notin> set cs)" by simp
    show ?thesis
    proof (cases "c \<in> set cs")
      case True
      with z \<open>c < length (times_seen_ctx s)\<close> res run show ?thesis
        by (auto simp: first_step_of_trial_def Let_def)
    next
      case False
      with z have z0: "times_seen_ctx s ! c = 0" by simp
      from run False have run': "monitor_run thr I (trace s) = Some (Entering c, ts, c # cs)"
        by simp
      show ?thesis using res z0 \<open>c < length (times_seen_ctx s)\<close>
        by (auto simp: first_step_of_trial_def Let_def monitor_run_append run'
            split: sum.splits)
    qed
  qed
  assume ok: "r = None"
  show "monitor_run thr I (trace s') = Some (Ready c, ts, List.insert c cs) \<and>
           (\<forall>k<length (times_seen_ctx s').
               (times_seen_ctx s' ! k = 0) = (k \<notin> set (List.insert c cs))) \<and>
           step_counter s' = step_counter s"
  proof (cases "c < length (times_seen_ctx s)")
    case False
    with res ok show ?thesis by (auto simp: first_step_of_trial_def)
  next
    case True
    with cnt have z: "(times_seen_ctx s ! c = 0) = (c \<notin> set cs)" by simp
    have upd: "\<forall>k<length (times_seen_ctx s).
        ((times_seen_ctx s)[c := Suc (times_seen_ctx s ! c)] ! k = 0) = (k \<noteq> c \<and> k \<notin> set cs)"
    proof (intro allI impI)
      fix k assume k: "k < length (times_seen_ctx s)"
      show "((times_seen_ctx s)[c := Suc (times_seen_ctx s ! c)] ! k = 0) = (k \<noteq> c \<and> k \<notin> set cs)"
      proof (cases "k = c")
        case True
        with k show ?thesis by simp
      next
        case False
        with k cnt show ?thesis by simp
      qed
    qed
    show ?thesis
    proof (cases "c \<in> set cs")
      case True
      with z \<open>c < length (times_seen_ctx s)\<close> res run ok upd show ?thesis
        by (auto simp: first_step_of_trial_def Let_def)
    next
      case False
      with z have z0: "times_seen_ctx s ! c = 0" by simp
      from run False have run': "monitor_run thr I (trace s) = Some (Entering c, ts, c # cs)"
        by simp
      show ?thesis using res z0 \<open>c < length (times_seen_ctx s)\<close> ok upd False
        by (auto simp: first_step_of_trial_def Let_def monitor_run_append run'
            split: sum.splits)
    qed
  qed
qed

lemma select_move_update_monitor:
  assumes run: "monitor_run thr I (trace s) = Some (Ready (snd state), ts, cs)"
    and res: "select_move_update tk ag state t s = (r, s')"
  shows "monitor_run thr I (trace s') \<noteq> None"
    and "r = None \<Longrightarrow>
           monitor_run thr I (trace s') = Some (Idle, ts, cs) \<and>
           step_counter s' = step_counter s \<and> times_seen_ctx s' = times_seen_ctx s"
proof -
  show "monitor_run thr I (trace s') \<noteq> None"
    using res
    by (auto simp: select_move_update_def Let_def monitor_run_append run
        split: sum.splits prod.splits if_splits)
  assume "r = None"
  with res show "monitor_run thr I (trace s') = Some (Idle, ts, cs) \<and>
           step_counter s' = step_counter s \<and> times_seen_ctx s' = times_seen_ctx s"
    by (auto simp: select_move_update_def Let_def monitor_run_append run
        split: sum.splits prod.splits if_splits)
qed

lemma generate_body_monitor:
  assumes inv: "generate_inv thr s ts cs"
    and res: "generate_body tk ag thr state s = (r, s')"
  shows "monitor_run thr (Idle, [], []) (trace s') \<noteq> None"
    and "r = None \<Longrightarrow> \<exists>ts' cs'. generate_inv thr s' ts' cs'"
proof -
  let ?I = "(Idle, [], []) :: monitor"
  let ?t = "current_trial_number tk (task s)"
  let ?c = "snd state"
  let ?s0 = "s\<lparr>trace := trace s @ [Observed ?t ?c]\<rparr>"
  let ?s1 = "?s0\<lparr>step_counter := (step_counter ?s0)[?t := step_counter ?s0 ! ?t + 1]\<rparr>"
  from inv have run: "monitor_run thr ?I (trace s) = Some (Idle, ts, cs)"
    and sc: "\<forall>k<length (step_counter s). (step_counter s ! k = 0) = (k \<notin> set ts)"
    and tc: "\<forall>k<length (times_seen_ctx s). (times_seen_ctx s ! k = 0) = (k \<notin> set cs)"
    by (simp_all add: generate_inv_def)
  have both: "monitor_run thr ?I (trace s') \<noteq> None \<and>
              (r = None \<longrightarrow> (\<exists>ts' cs'. generate_inv thr s' ts' cs'))"
  proof (cases "?t < length (step_counter s)")
    case False
    with res have "r = Some IndexError" "s' = ?s0"
      by (simp_all add: generate_body_def Let_def)
    then show ?thesis using run by (simp add: monitor_run_append)
  next
    case inrange: True
    show ?thesis
    proof (cases "?t \<in> set ts")
      case seen: True
      with sc inrange have nz: "step_counter s ! ?t \<noteq> 0" by simp
      have run1: "monitor_run thr ?I (trace ?s1) = Some (Ready ?c, ts, cs)"
        using run seen by (simp add: monitor_run_append)
      from res inrange nz have tail: "select_move_update tk ag state ?t ?s1 = (r, s')"
        by (simp add: generate_body_def Let_def)
      have sc1: "\<forall>k<length (step_counter ?s1). (step_counter ?s1 ! k = 0) = (k \<notin> set ts)"
      proof (intro allI impI)
        fix k assume "k < length (step_counter ?s1)"
        then show "(step_counter ?s1 ! k = 0) = (k \<notin> set ts)"
          using sc seen by (cases "k = ?t") simp_all
      qed
      from select_move_update_monitor[OF run1 tail] sc1 tc
      show ?thesis by (auto simp: generate_inv_def)
    next
      case first: False
      with sc inrange have z: "step_counter s ! ?t = 0" by simp
      have run1: "monitor_run thr ?I (trace ?s1) =
          Some (if ?c \<notin> set cs then Entering ?c else Ready ?c, ?t # ts, List.insert ?c cs)"
        using run first by (simp add: monitor_run_append List.insert_def)
      have tc1: "\<forall>k<length (times_seen_ctx ?s1). (times_seen_ctx ?s1 ! k = 0) = (k \<notin> set cs)"
        using tc by simp
      obtain r2 s2 where hook: "first_step_of_trial ag thr ?c ?s1 = (r2, s2)"
        by (cases "first_step_of_trial ag thr ?c ?s1")
      note h = first_step_of_trial_monitor[OF run1 tc1 hook]
      have sc1: "\<forall>k<length (step_counter ?s1). (step_counter ?s1 ! k = 0) = (k \<notin> set (?t # ts))"
      proof (intro allI impI)
        fix k assume "k < length (step_counter ?s1)"
        then show "(step_counter ?s1 ! k = 0) = (k \<notin> set (?t # ts))"
          using sc by (cases "k = ?t") simp_all
      qed
      show ?thesis
      proof (cases r2)
        case (Some e)
        with res inrange z hook have "r = Some e" "s' = s2"
          by (simp_all add: generate_body_def Let_def)
        with h(1) show ?thesis by simp
      next
        case None
        with res inrange z hook have tail: "select_move_update tk ag state ?t s2 = (r, s')"
          by (simp add: generate_body_def Let_def)
        from h(2)[OF None] have
          run2: "monitor_run thr ?I (trace s2) = Some (Ready ?c, ?t # ts, List.insert ?c cs)"
          and tc2: "\<forall>k<length (times_seen_ctx s2).
                      (times_seen_ctx s2 ! k = 0) = (k \<notin> set (List.insert ?c cs))"
          and sc2: "step_counter s2 = step_counter ?s1"
          by simp_all
        from select_move_update_monitor[OF run2 tail] sc1 tc2 sc2
        show ?thesis by (auto simp: generate_inv_def)
      qed
    qed
  qed
  from both show "monitor_run thr (Idle, [], []) (trace s') \<noteq> None" by simp
  assume "r = None"
  with both show "\<exists>ts' cs'. generate_inv thr s' ts' cs'" by simp
qed

lemma generate_loop_monitor:
  "generate_inv thr s ts cs \<Longrightarrow>
   allowed thr (trace (snd (generate_loop tk ag thr fuel s)))"
proof (induction fuel arbitrary: s ts cs)
  case 0
  then show ?case by (simp add: allowed_def generate_inv_def)
next
  case (Suc fuel)
  show ?case
  proof (cases "get_state tk (task s)")
    case None
    with Suc.prems show ?thesis by (simp add: allowed_def generate_inv_def)
  next
    case (Some state)
    obtain r s' where body: "generate_body tk ag thr state s = (r, s')"
      by (cases "generate_body tk ag thr state s")
    note b = generate_body_monitor[OF Suc.prems body]
    show ?thesis
    proof (cases r)
      case None
      from b(2)[OF None] obtain ts' cs' where "generate_inv thr s' ts' cs'" by blast
      from Suc.IH[OF this] Some body None show ?thesis by simp
    next
      case (Some e)
      with \<open>get_state tk (task s) = Some state\<close> body b(1) show ?thesis
        by (simp add: allowed_def)
    qed
  qed
qed

lemma generate_inv_init:
  "generate_inv thr
     \<lparr>task = task0, agent = self0, step_counter = replicate n 0,
      times_seen_ctx = replicate m 0, results = [], ii = 0, trace = []\<rparr> [] []"
  by (simp add: generate_inv_def)

text \<open>
  The monitor is not satisfied by everything: it rejects a second pruning and
  augmentation for a context on a repeat visit, and an action selected on a first
  visit before pruning and augmentation.
\<close>

lemma monitor_rejects_second_augment:
  "\<not> allowed 1000
     [Observed 0 0, PruneHypothesisSpace 0 1000, AugmentAssignments 0, SelectAction ((), 0),
      Update (((), 0), 0, 0, 0, ((), 0)),
      Observed 1 0, PruneHypothesisSpace 0 1000, AugmentAssignments 0, SelectAction ((), 0)]"
  by (simp add: allowed_def)

lemma monitor_rejects_missing_augment:
  "\<not> allowed 1000 [Observed 0 0, SelectAction ((), 0)]"
  by (simp add: allowed_def)

lemma example_run:
  "fst (generate example_task example_agent 1000 10 0 ()) = Returned \<and>
   trace (snd (generate example_task example_agent 1000 10 0 ())) =
     [Observed 0 0, PruneHypothesisSpace 0 1000, AugmentAssignments 0, SelectAction ((), 0),
      Update (((), 0), 0, 0, 0, ((), 0)),
      Observed 0 0, SelectAction ((), 0), Update (((), 0), 0, 0, 0, ((), 0)),
      Observed 1 0, SelectAction ((), 0), Update (((), 0), 0, 0, 0, ((), 0)),
      Observed 2 1, PruneHypothesisSpace 1 1000, AugmentAssignments 1, SelectAction ((), 1),
      Update (((), 1), 0, 0, 0, ((), 1))]"
  by (simp add: generate_def example_task_def example_agent_def example_schedule_def
      generate_body_def first_step_of_trial_def select_move_update_def Let_def numeral_eq_Suc)

text \<open>
  Claim C8. In every run of \<open>generate\<close>, for every task, every agent and however long
  the run goes on (also one that an exception ends), the sequence of calls is one the
  monitor allows: \<open>prune_hypothesis_space\<close> and \<open>augment_assignments(c)\<close> are called only
  in an iteration that is the first step of a trial and the first such step in context
  \<open>c\<close> of the whole run, pruning first and augmentation right after it, both before
  that iteration's \<open>select_action\<close>; no other iteration calls either. Hence for each
  context \<open>c\<close> there is at most one pruning call made for \<open>c\<close> and at most one call
  \<open>augment_assignments(c)\<close>.
\<close>

theorem generate_prunes_and_augments_once:
  "allowed pruning_threshold (trace (snd (generate tk ag pruning_threshold fuel task0 self0))) \<and>
   count_list (trace (snd (generate tk ag pruning_threshold fuel task0 self0)))
     (PruneHypothesisSpace c threshold) \<le> 1 \<and>
   count_list (trace (snd (generate tk ag pruning_threshold fuel task0 self0)))
     (AugmentAssignments c) \<le> 1"
proof -
  have a: "allowed pruning_threshold
             (trace (snd (generate tk ag pruning_threshold fuel task0 self0)))"
    unfolding generate_def by (rule generate_loop_monitor[OF generate_inv_init])
  from a allowed_counts[OF a] show ?thesis by simp
qed

theorem generate_prunes_and_augments_once_witness:
  "allowed 1000 (trace (snd (generate example_task example_agent 1000 10 0 ()))) \<and>
   count_list (trace (snd (generate example_task example_agent 1000 10 0 ())))
     (PruneHypothesisSpace 0 1000) = 1 \<and>
   count_list (trace (snd (generate example_task example_agent 1000 10 0 ())))
     (AugmentAssignments 0) = 1"
  using generate_prunes_and_augments_once[of 1000 example_task example_agent 10 0 "()" 0 1000]
  by (simp add: example_run)

end
